theory Spec2Isabelle
  imports Main "HOL-Library.Sublist" "HOL-Library.Multiset"
begin

section \<open>Python values used by the parsers\<close>

text \<open>
  A Python \<^verbatim>\<open>str\<close> is a sequence of Unicode code points; the keywords of the parsers are
  Cyrillic, so a string is modelled as a list of code points (natural numbers), not as
  a list of 8-bit characters. ASCII literals of the source are written with \<open>ascii\<close>.
\<close>

type_synonym ustr = "nat list"

definition ascii :: "string \<Rightarrow> ustr" where
  "ascii s = map of_char s"

text \<open>
  The values stored in an order dictionary are strings; \<^verbatim>\<open>order.get('id')\<close> yields
  \<^verbatim>\<open>None\<close> for a missing key. \<open>truthy\<close> is Python's truth test on such a value.
\<close>

datatype pyval = PNone | PStr ustr

fun truthy :: "pyval \<Rightarrow> bool" where
  "truthy PNone = False"
| "truthy (PStr s) = (s \<noteq> [])"

text \<open>An order is a \<^verbatim>\<open>Dict\<close> with ASCII keys; \<open>dict_get\<close> is \<^verbatim>\<open>d.get(k)\<close> and
  \<open>dict_get_default\<close> is \<^verbatim>\<open>d.get(k, default)\<close>.\<close>

type_synonym order = "(string \<times> pyval) list"

definition dict_get :: "order \<Rightarrow> string \<Rightarrow> pyval" where
  "dict_get d k = (case map_of d k of None \<Rightarrow> PNone | Some v \<Rightarrow> v)"

definition dict_get_default :: "order \<Rightarrow> string \<Rightarrow> pyval \<Rightarrow> pyval" where
  "dict_get_default d k dflt = (case map_of d k of None \<Rightarrow> dflt | Some v \<Rightarrow> v)"

text \<open>
  What the code takes from the interpreter. The parts of the Unicode database reached
  through \<^verbatim>\<open>str.lower\<close>, the regular expression class \<^verbatim>\<open>\d\<close>, \<^verbatim>\<open>int\<close> and \<^verbatim>\<open>str.strip\<close>
  are library tables: \<open>digit_of c\<close> is the decimal value of the code point \<open>c\<close> when \<open>c\<close>
  is a decimal digit, \<open>is_space c\<close> says that \<open>c\<close> is white space. \<open>max_str_digits\<close> is the
  interpreter's limit on the number of digits \<^verbatim>\<open>int\<close> converts
  (\<^verbatim>\<open>sys.get_int_max_str_digits()\<close>, 4300 unless configured otherwise; 0 switches the
  limit off).
\<close>

record runtime =
  lower_of :: "ustr \<Rightarrow> ustr"
  digit_of :: "nat \<Rightarrow> nat option"
  is_space :: "nat \<Rightarrow> bool"
  max_str_digits :: nat

definition is_digit :: "runtime \<Rightarrow> nat \<Rightarrow> bool" where
  "is_digit U c = (digit_of U c \<noteq> None)"

text \<open>The exceptions the modelled code can raise.\<close>

datatype py_error = IndexError | ValueError | ZeroDivisionError

text \<open>
  \<^verbatim>\<open>int(s)\<close>, as far as the code uses it. On the empty string and on a string with a
  character that is no decimal digit it raises \<^verbatim>\<open>ValueError\<close>; on a run of more digits
  than the interpreter's limit it raises \<^verbatim>\<open>ValueError\<close> too; otherwise it is the base-10
  value, most significant digit first, an unbounded integer. (Signs, blanks and
  underscores, which \<^verbatim>\<open>int\<close> also accepts, never reach it from \<^verbatim>\<open>\d+\<close>.)
\<close>

definition py_int :: "runtime \<Rightarrow> ustr \<Rightarrow> py_error + int" where
  "py_int U ds =
     (if ds = [] \<or> (\<exists>c \<in> set ds. digit_of U c = None) then Inl ValueError
      else if max_str_digits U \<noteq> 0 \<and> length ds > max_str_digits U then Inl ValueError
      else Inr (foldl (\<lambda>acc c. 10 * acc + int (the (digit_of U c))) 0 ds))"

text \<open>\<^verbatim>\<open>xs[i]\<close> for an index \<open>i \<ge> 0\<close>: raises \<^verbatim>\<open>IndexError\<close> out of range.\<close>

definition subscript :: "'a list \<Rightarrow> nat \<Rightarrow> py_error + 'a" where
  "subscript xs i = (if i < length xs then Inr (xs ! i) else Inl IndexError)"

text \<open>\<^verbatim>\<open>re.findall(r'\d+', s)\<close>: the maximal runs of digits, from left to right.\<close>

function findall_digits :: "(nat \<Rightarrow> bool) \<Rightarrow> ustr \<Rightarrow> ustr list" where
  "findall_digits d [] = []"
| "findall_digits d (c # cs) =
     (if d c then takeWhile d (c # cs) # findall_digits d (dropWhile d cs)
      else findall_digits d cs)"
  by pat_completeness auto
termination
  by (relation "measure (\<lambda>(d, s). length s)")
     (auto simp: le_imp_less_Suc length_dropWhile_le)

text \<open>
  A concrete table for the Basic Latin and Cyrillic blocks, used to run the model on the
  phrases of the two sites: \<^verbatim>\<open>A-Z\<close> and the Cyrillic capitals are lowered, \<^verbatim>\<open>0-9\<close> are
  the digits, the ASCII blanks and separators are the white space. Code points outside
  these blocks are left as they are. The limit of \<^verbatim>\<open>int\<close> is the interpreter's default.
\<close>

definition lower_cp :: "nat \<Rightarrow> nat" where
  "lower_cp c =
     (if 65 \<le> c \<and> c \<le> 90 then c + 32
      else if 1040 \<le> c \<and> c \<le> 1071 then c + 32
      else if 1024 \<le> c \<and> c \<le> 1039 then c + 80
      else c)"

definition basic_runtime :: runtime where
  "basic_runtime =
     \<lparr> lower_of = map lower_cp,
       digit_of = (\<lambda>c. if 48 \<le> c \<and> c \<le> 57 then Some (c - 48) else None),
       is_space = (\<lambda>c. (9 \<le> c \<and> c \<le> 13) \<or> (28 \<le> c \<and> c \<le> 32)),
       max_str_digits = 4300 \<rparr>"

section \<open>Recency normalizer: \<^verbatim>\<open>time_to_minutes\<close>\<close>

text \<open>The literals of \<^verbatim>\<open>time_to_minutes\<close> (combined_parser.py, lines 94-123; the same
  function is repeated in freelancespace_parser_simple.py, lines 503-532).\<close>

definition nedavno :: ustr where \<comment> \<open>"Nedavno", the "recent" sentinel\<close>
  "nedavno = [1053, 1077, 1076, 1072, 1074, 1085, 1086]"

definition kw_sekund :: ustr where \<comment> \<open>"sekund": seconds\<close>
  "kw_sekund = [1089, 1077, 1082, 1091, 1085, 1076]"

definition kw_minut :: ustr where \<comment> \<open>"minut": minutes\<close>
  "kw_minut = [1084, 1080, 1085, 1091, 1090]"

definition kw_chas :: ustr where \<comment> \<open>"chas": hours\<close>
  "kw_chas = [1095, 1072, 1089]"

definition kw_den :: ustr where \<comment> \<open>"den'": day\<close>
  "kw_den = [1076, 1077, 1085, 1100]"

definition kw_dnya :: ustr where \<comment> \<open>"dnya": days (2-4)\<close>
  "kw_dnya = [1076, 1085, 1103]"

definition kw_dney :: ustr where \<comment> \<open>"dney": days (5 and more)\<close>
  "kw_dney = [1076, 1085, 1077, 1081]"

definition kw_nedel :: ustr where \<comment> \<open>"nedel": weeks\<close>
  "kw_nedel = [1085, 1077, 1076, 1077, 1083]"

definition kw_mesyats :: ustr where \<comment> \<open>"mesyats": months\<close>
  "kw_mesyats = [1084, 1077, 1089, 1103, 1094]"

definition time_to_minutes :: "runtime \<Rightarrow> pyval \<Rightarrow> py_error + int" where
  "time_to_minutes U time_str =
     (if \<not> truthy time_str \<or> time_str = PStr nedavno then Inr 0
      else case time_str of
        PNone \<Rightarrow> Inr 0
      | PStr raw \<Rightarrow>
          (let s = lower_of U raw;
               numbers = findall_digits (is_digit U) s
           in if numbers = [] then Inr 0
              else case subscript numbers 0 of
                Inl e \<Rightarrow> Inl e
              | Inr ds \<Rightarrow>
                 (case py_int U ds of
                    Inl e \<Rightarrow> Inl e
                  | Inr num \<Rightarrow>
                      Inr (if sublist kw_sekund s then max 1 (num div 60)
                           else if sublist kw_minut s then num
                           else if sublist kw_chas s then num * 60
                           else if sublist kw_den s \<or> sublist kw_dnya s \<or> sublist kw_dney s
                             then num * 24 * 60
                           else if sublist kw_nedel s then num * 7 * 24 * 60
                           else if sublist kw_mesyats s then num * 30 * 24 * 60
                           else 0))))"


section \<open>Aggregator: \<^verbatim>\<open>CombinedParser\<close> (combined_parser.py)\<close>

text \<open>
  \<^verbatim>\<open>sorted(xs, key=key, reverse=True)\<close>: the keys are computed first, and an exception of
  \<^verbatim>\<open>key\<close> leaves \<^verbatim>\<open>sorted\<close>; otherwise the result is in descending order of the keys, and
  elements with equal keys keep their order (the sort is stable, also with
  \<^verbatim>\<open>reverse=True\<close>).
\<close>

definition sorted_reverse :: "('a \<Rightarrow> py_error + int) \<Rightarrow> 'a list \<Rightarrow> py_error + 'a list" where
  "sorted_reverse key xs =
     (case find isl (map key xs) of
        Some r \<Rightarrow> Inl (projl r)
      | None \<Rightarrow> Inr (sort_key (\<lambda>x. - projr (key x)) xs))"

text \<open>The key of the sort: \<^verbatim>\<open>lambda x: time_to_minutes(x.get('published', ''))\<close>.\<close>

definition published_key :: "runtime \<Rightarrow> order \<Rightarrow> py_error + int" where
  "published_key U x = time_to_minutes U (dict_get_default x ''published'' (PStr []))"

text \<open>\<^verbatim>\<open>_sort_orders_by_time\<close>: when the sort raises, the orders are returned as they came.\<close>

definition sort_orders_by_time :: "runtime \<Rightarrow> order list \<Rightarrow> order list" where
  "sort_orders_by_time U orders =
     (case sorted_reverse (published_key U) orders of
        Inr sorted_orders \<Rightarrow> sorted_orders
      | Inl e \<Rightarrow> orders)"

text \<open>
  \<^verbatim>\<open>_filter_unique_orders\<close> (lines 76-88). The loop carries \<^verbatim>\<open>unique_orders\<close>, the local
  \<^verbatim>\<open>seen_ids\<close> and the object's \<^verbatim>\<open>self.sent_orders\<close>; the function returns the list and
  leaves the updated \<^verbatim>\<open>sent_orders\<close> behind.
\<close>

fun filter_unique_loop ::
  "order list \<Rightarrow> order list \<Rightarrow> pyval set \<Rightarrow> pyval set \<Rightarrow> order list \<times> pyval set" where
  "filter_unique_loop [] unique_orders seen_ids sent = (unique_orders, sent)"
| "filter_unique_loop (x # orders) unique_orders seen_ids sent =
     (let order_id = dict_get x ''id'' in
      if truthy order_id \<and> order_id \<notin> seen_ids \<and> order_id \<notin> sent
      then filter_unique_loop orders (unique_orders @ [x])
             (insert order_id seen_ids) (insert order_id sent)
      else filter_unique_loop orders unique_orders seen_ids sent)"

definition filter_unique_orders :: "pyval set \<Rightarrow> order list \<Rightarrow> order list \<times> pyval set" where
  "filter_unique_orders sent orders = filter_unique_loop orders [] {} sent"

section \<open>Source adapters\<close>

text \<open>
  The new-record filter at the end of \<^verbatim>\<open>get_new_orders\<close>, the same loop in
  freelancespace_parser_simple.py (lines 482-488) and fl_parser.py (lines 59-64), over the
  adapter's own \<^verbatim>\<open>self.sent_orders\<close>.
\<close>

fun new_orders_loop :: "order list \<Rightarrow> order list \<Rightarrow> pyval set \<Rightarrow> order list \<times> pyval set" where
  "new_orders_loop [] new_orders sent = (new_orders, sent)"
| "new_orders_loop (x # all_orders) new_orders sent =
     (let order_id = dict_get x ''id'' in
      if truthy order_id \<and> order_id \<notin> sent
      then new_orders_loop all_orders (new_orders @ [x]) (insert order_id sent)
      else new_orders_loop all_orders new_orders sent)"

text \<open>
  What one page request of the paginated adapter can do. \<open>Response status orders\<close> is a
  response with that status code whose text \<^verbatim>\<open>_parse_html_response\<close> turns into
  \<open>orders\<close>; \<open>OtherException\<close> is any other exception raised in the \<^verbatim>\<open>try\<close> body.
\<close>

datatype page_outcome =
    Timeout
  | ConnectionError
  | OtherException
  | Response int "order list"

text \<open>
  The page loop of \<^verbatim>\<open>parse_orders\<close> (lines 78-125), over the pages still to request. It
  carries \<^verbatim>\<open>all_orders\<close> and, as the trace of its effect, the pages requested so far.
  \<^verbatim>\<open>break\<close> returns, \<^verbatim>\<open>continue\<close> goes on with the next page.
\<close>

fun page_loop ::
  "(int \<Rightarrow> page_outcome) \<Rightarrow> int list \<Rightarrow> order list \<Rightarrow> int list \<Rightarrow> order list \<times> int list" where
  "page_loop server [] all_orders requested = (all_orders, requested)"
| "page_loop server (page # pages) all_orders requested =
     (case server page of
        Response status orders \<Rightarrow>
          if status = 200 then
            if orders = [] then (all_orders, requested @ [page])
            else page_loop server pages (all_orders @ orders) (requested @ [page])
          else (all_orders, requested @ [page])
      | Timeout \<Rightarrow> (all_orders, requested @ [page])
      | ConnectionError \<Rightarrow> (all_orders, requested @ [page])
      | OtherException \<Rightarrow> page_loop server pages all_orders (requested @ [page]))"

text \<open>
  \<^verbatim>\<open>parse_orders\<close>: pages \<^verbatim>\<open>range(1, max_pages + 1)\<close>, then the sort, then the last log
  line (line 131), which divides the number of orders by \<^verbatim>\<open>total_time\<close>, the difference
  of the clock readings at the end and at the start of the call. The division stands
  outside every \<^verbatim>\<open>try\<close>: when the clock has not advanced it raises
  \<^verbatim>\<open>ZeroDivisionError\<close> and the sorted list is lost. \<open>total_time\<close> is given in ticks of the
  clock. The second component is the trace of requests, which have happened in either
  case. The other log lines and the delay between pages are not modelled.
\<close>

definition parse_orders ::
  "runtime \<Rightarrow> (int \<Rightarrow> page_outcome) \<Rightarrow> int \<Rightarrow> int \<Rightarrow> (py_error + order list) \<times> int list" where
  "parse_orders U server total_time max_pages =
     (let (all_orders, requested) = page_loop server [1..max_pages] [] [];
          all_orders_sorted = sort_orders_by_time U all_orders
      in if total_time = 0 then (Inl ZeroDivisionError, requested)
         else (Inr all_orders_sorted, requested))"

text \<open>
  \<^verbatim>\<open>FreelanceSpaceParserSimple.get_new_orders\<close>: an exception of \<^verbatim>\<open>parse_orders\<close> leaves
  it before the filter runs, with \<^verbatim>\<open>sent_orders\<close> as it was; otherwise it returns the new
  orders and leaves the updated \<^verbatim>\<open>sent_orders\<close>.
\<close>

definition fs_get_new_orders ::
  "runtime \<Rightarrow> pyval set \<Rightarrow> (int \<Rightarrow> page_outcome) \<Rightarrow> int \<Rightarrow> int
     \<Rightarrow> (py_error + order list) \<times> pyval set" where
  "fs_get_new_orders U sent server total_time max_pages =
     (case fst (parse_orders U server total_time max_pages) of
        Inl e \<Rightarrow> (Inl e, sent)
      | Inr all_orders \<Rightarrow>
          (let (new_orders, sent') = new_orders_loop all_orders [] sent
           in (Inr new_orders, sent')))"

text \<open>
  \<^verbatim>\<open>FLParser._parse_page\<close> with \<^verbatim>\<open>max_orders\<close>: the index page is requested (\<open>None\<close>:
  the request or its parsing raised, and the result is the empty list); each h2 block
  yields an order or nothing (\<open>None\<close>: no listing link, or the detail page failed).
\<close>

fun fl_block_loop :: "nat \<Rightarrow> order option list \<Rightarrow> order list \<Rightarrow> order list" where
  "fl_block_loop max_orders [] orders = orders"
| "fl_block_loop max_orders (b # blocks) orders =
     (if max_orders \<noteq> 0 \<and> length orders \<ge> max_orders then orders
      else case b of
        None \<Rightarrow> fl_block_loop max_orders blocks orders
      | Some x \<Rightarrow>
          if x \<noteq> [] then fl_block_loop max_orders blocks (orders @ [x])
          else fl_block_loop max_orders blocks orders)"

definition fl_parse_page :: "order option list option \<Rightarrow> nat \<Rightarrow> order list" where
  "fl_parse_page index max_orders =
     (case index of None \<Rightarrow> [] | Some blocks \<Rightarrow> fl_block_loop max_orders blocks [])"

text \<open>\<^verbatim>\<open>FLParser.get_new_orders\<close>: the first page, at most 5 orders, then the filter.\<close>

definition fl_get_new_orders ::
  "pyval set \<Rightarrow> order option list option \<Rightarrow> order list \<times> pyval set" where
  "fl_get_new_orders sent index = new_orders_loop (fl_parse_page index 5) [] sent"

text \<open>
  \<^verbatim>\<open>CombinedParser.get_new_orders\<close>. The state of the process is the three
  \<^verbatim>\<open>sent_orders\<close> sets; a cycle reads what the two sites answer and what the clock shows.
  An exception of the FreelanceSpace adapter is caught and logged, and nothing is added
  to \<^verbatim>\<open>all_orders\<close> for it; the FL.ru adapter returns in every case of the model, so the
  \<^verbatim>\<open>except\<close> branch around its call has no counterpart here.
\<close>

record parsers =
  fs_sent :: "pyval set"
  fl_sent :: "pyval set"
  agg_sent :: "pyval set"

record cycle_input =
  fs_server :: "int \<Rightarrow> page_outcome"
  fs_total_time :: int
  fl_index :: "order option list option"

definition get_new_orders :: "runtime \<Rightarrow> int \<Rightarrow> parsers \<Rightarrow> cycle_input \<Rightarrow> order list \<times> parsers" where
  "get_new_orders U pages st inp =
     (let (fs_result, fs') =
            fs_get_new_orders U (fs_sent st) (fs_server inp) (fs_total_time inp) pages;
          freelancespace_orders = (case fs_result of Inl e \<Rightarrow> [] | Inr orders \<Rightarrow> orders);
          (fl_orders, fl') = fl_get_new_orders (fl_sent st) (fl_index inp);
          all_orders = freelancespace_orders @ fl_orders;
          (unique_orders, agg') = filter_unique_orders (agg_sent st) all_orders;
          sorted_orders = sort_orders_by_time U unique_orders
      in (sorted_orders, \<lparr> fs_sent = fs', fl_sent = fl', agg_sent = agg' \<rparr>))"

section \<open>Field extractor: author and identity\<close>

text \<open>
  The author chain of \<^verbatim>\<open>_extract_order_data\<close> (freelancespace_parser_simple.py, lines
  295-326). The author container is given by its \<^verbatim>\<open>span\<close> descendants in document order,
  each with its class list and its stripped text; \<open>None\<close> is "no container found".
\<close>

record span =
  span_class :: "string list"
  span_text :: ustr

definition ne_ukazan :: ustr where \<comment> \<open>"Ne ukazan", the "not specified" sentinel\<close>
  "ne_ukazan = [1053, 1077, 32, 1091, 1082, 1072, 1079, 1072, 1085]"

text \<open>The loop over \<^verbatim>\<open>find_all('span', class_='hidden')\<close>, lines 302-308.\<close>

fun hidden_span_loop :: "ustr \<Rightarrow> span list \<Rightarrow> ustr \<Rightarrow> ustr" where
  "hidden_span_loop title [] author = author"
| "hidden_span_loop title (sp # spans) author =
     (if ''sm:inline'' \<in> set (span_class sp) then
        (let author_text = span_text sp in
         if length author_text < 50 \<and> author_text \<noteq> title \<and> \<not> sublist (ascii ''...'') author_text
         then author_text
         else hidden_span_loop title spans author)
      else hidden_span_loop title spans author)"

text \<open>The loop over \<^verbatim>\<open>find_all('span', class_=['text-gray-800', 'font-semibold'])\<close>, lines
  313-326; \<^verbatim>\<open>author_text.endswith(author_text[:len(author_text)//2])\<close> is \<open>suffix\<close>.\<close>

fun semibold_span_loop :: "ustr \<Rightarrow> span list \<Rightarrow> ustr \<Rightarrow> ustr" where
  "semibold_span_loop title [] author = author"
| "semibold_span_loop title (sp # spans) author =
     (if ''font-semibold'' \<in> set (span_class sp) then
        (let author_text = span_text sp in
         if length author_text < 50 \<and> author_text \<noteq> title \<and> \<not> sublist (ascii ''...'') author_text
            \<and> \<not> suffix (take (length author_text div 2) author_text) author_text
         then
           (if length author_text > 2 then
              (let half_len = length author_text div 2 in
               if take half_len author_text = drop half_len author_text
               then take half_len author_text
               else author_text)
            else author)
         else semibold_span_loop title spans author)
      else semibold_span_loop title spans author)"

definition extract_author :: "ustr \<Rightarrow> span list option \<Rightarrow> ustr" where
  "extract_author title author_container =
     (case author_container of
        None \<Rightarrow> ne_ukazan
      | Some spans \<Rightarrow>
          (let author = hidden_span_loop title
                          (filter (\<lambda>sp. ''hidden'' \<in> set (span_class sp)) spans) ne_ukazan
           in if author = ne_ukazan
              then semibold_span_loop title
                     (filter (\<lambda>sp. ''text-gray-800'' \<in> set (span_class sp)
                                 \<or> ''font-semibold'' \<in> set (span_class sp)) spans) author
              else author))"

text \<open>\<^verbatim>\<open>s.split(sep)\<close> for a non-empty separator: \<open>find_sub\<close> is the index of the leftmost
  occurrence. (With an empty separator Python raises; the code splits at two literals.)\<close>

fun find_sub :: "ustr \<Rightarrow> ustr \<Rightarrow> nat option" where
  "find_sub sep [] = (if sep = [] then Some 0 else None)"
| "find_sub sep (c # cs) =
     (if prefix sep (c # cs) then Some 0 else map_option Suc (find_sub sep cs))"

function py_split :: "ustr \<Rightarrow> ustr \<Rightarrow> ustr list" where
  "py_split sep s =
     (if sep = [] then [s]
      else case find_sub sep s of
        None \<Rightarrow> [s]
      | Some i \<Rightarrow> take i s # py_split sep (drop (i + length sep) s))"
  by pat_completeness auto
termination
proof (relation "measure (\<lambda>(sep, s). length s)")
  show "wf (measure (\<lambda>(sep :: ustr, s :: ustr). length s))" by simp
next
  fix sep s :: ustr and i
  assume "sep \<noteq> []" "find_sub sep s = Some i"
  then have "s \<noteq> []" by (cases s) auto
  with \<open>sep \<noteq> []\<close>
  show "((sep, drop (i + length sep) s), sep, s) \<in> measure (\<lambda>(sep, s). length s)" by simp
qed

text \<open>\<^verbatim>\<open>str(n)\<close> for an integer: decimal digits, with a sign when negative.\<close>

fun decimal_str :: "nat \<Rightarrow> ustr" where
  "decimal_str n = (if n < 10 then [48 + n] else decimal_str (n div 10) @ [48 + n mod 10])"

definition py_str :: "int \<Rightarrow> ustr" where
  "py_str i = (if i < 0 then 45 # decimal_str (nat (- i)) else decimal_str (nat i))"

text \<open>
  The URL and the identity of a FreelanceSpace listing (lines 280-293). \<open>hash\<close> is the
  built-in \<^verbatim>\<open>hash\<close> on strings: one function for the life of a process (it is salted
  anew when the interpreter starts), taken as a parameter. The bare \<^verbatim>\<open>except\<close> keeps
  \<^verbatim>\<open>order_id = None\<close>.
\<close>

definition fs_full_url :: "ustr \<Rightarrow> ustr" where
  "fs_full_url url =
     (if url \<noteq> [] \<and> \<not> prefix (ascii ''http'') url
      then ascii ''https://freelancespace.ru/'' @ dropWhile (\<lambda>c. c = 47) url
      else url)"

definition fs_order_id :: "(ustr \<Rightarrow> int) \<Rightarrow> ustr \<Rightarrow> ustr \<Rightarrow> pyval" where
  "fs_order_id hash title url =
     (let order_id =
        (if sublist (ascii ''order?id='') url then
           (case subscript (py_split (ascii ''order?id='') url) 1 of
              Inl e \<Rightarrow> PNone
            | Inr rest \<Rightarrow>
                (case subscript (py_split (ascii ''&'') rest) 0 of
                   Inl e \<Rightarrow> PNone
                 | Inr seg \<Rightarrow> PStr seg))
         else PNone)
      in if \<not> truthy order_id then PStr (py_str (abs (hash (title @ url)))) else order_id)"

text \<open>
  The identity of an FL.ru listing (fl_parser.py, lines 124-130).
  \<^verbatim>\<open>re.search(r'/projects/(\d+)/', href)\<close> takes the leftmost position where the pattern
  matches; there the greedy \<^verbatim>\<open>\d+\<close> gives digits back until a \<^verbatim>\<open>/\<close> follows.
\<close>

fun backtrack_digits :: "nat \<Rightarrow> ustr \<Rightarrow> ustr option" where
  "backtrack_digits 0 rest = None"
| "backtrack_digits (Suc n) rest =
     (if Suc n < length rest \<and> rest ! Suc n = 47 then Some (take (Suc n) rest)
      else backtrack_digits n rest)"

fun search_project_id :: "(nat \<Rightarrow> bool) \<Rightarrow> ustr \<Rightarrow> ustr option" where
  "search_project_id d [] = None"
| "search_project_id d (c # cs) =
     (if prefix (ascii ''/projects/'') (c # cs) then
        (let rest = drop 10 (c # cs) in
         case backtrack_digits (length (takeWhile d rest)) rest of
           Some g \<Rightarrow> Some g
         | None \<Rightarrow> search_project_id d cs)
      else search_project_id d cs)"

definition fl_order_id :: "runtime \<Rightarrow> (ustr \<Rightarrow> int) \<Rightarrow> ustr \<Rightarrow> ustr" where
  "fl_order_id U hash href =
     (case search_project_id (is_digit U) href of
        None \<Rightarrow> ascii ''fl_'' @ py_str (abs (hash href) mod 1000000)
      | Some g \<Rightarrow> ascii ''fl_'' @ g)"


section \<open>Block locator: \<^verbatim>\<open>_parse_html_response\<close> and \<^verbatim>\<open>_is_order_block\<close>\<close>

text \<open>
  The parsed document: a text leaf, or a tag with its name, its class list, its
  \<^verbatim>\<open>href\<close> attribute (if it has one) and its children; no other attribute is read by the
  code. The root is the document object itself. A node is identified by its path, the
  child indices from the root; two tags are \<^verbatim>\<open>==\<close> when their subtrees are equal.
\<close>

datatype node = Text ustr | Tag string "string list" "ustr option" "node list"

fun get_text :: "node \<Rightarrow> ustr" where
  "get_text (Text s) = s"
| "get_text (Tag name cls href children) = concat (map get_text children)"

fun subtree :: "node \<Rightarrow> nat list \<Rightarrow> node option" where
  "subtree n [] = Some n"
| "subtree (Text s) (i # p) = None"
| "subtree (Tag name cls href children) (i # p) =
     (if i < length children then subtree (children ! i) p else None)"

text \<open>The descendants of a node in document order, each with its path from that node.\<close>

fun descendants :: "node \<Rightarrow> (nat list \<times> node) list"
  and descendants_from :: "nat \<Rightarrow> node list \<Rightarrow> (nat list \<times> node) list" where
  "descendants (Text s) = []"
| "descendants (Tag name cls href children) = descendants_from 0 children"
| "descendants_from i [] = []"
| "descendants_from i (ch # children) =
     ([i], ch) # map (\<lambda>(p, d). (i # p, d)) (descendants ch) @ descendants_from (Suc i) children"

text \<open>\<^verbatim>\<open>find_parent()\<close>: the parent of the root is \<^verbatim>\<open>None\<close>.\<close>

definition find_parent :: "nat list \<Rightarrow> nat list option" where
  "find_parent p = (if p = [] then None else Some (butlast p))"

text \<open>\<^verbatim>\<open>text.strip()\<close>.\<close>

definition strip :: "runtime \<Rightarrow> ustr \<Rightarrow> ustr" where
  "strip U s = rev (dropWhile (is_space U) (rev (dropWhile (is_space U) s)))"

text \<open>The word lists of \<^verbatim>\<open>_is_order_block\<close> (lines 216-228).\<close>

definition action_words :: "ustr list" where
  "action_words =
     [[1054, 1090, 1082, 1083, 1080, 1082, 1085, 1091, 1090, 1100, 1089, 1103] \<comment> \<open>Otkliknut'sya\<close>,
      [1055, 1086, 1076, 1072, 1090, 1100, 32, 1079, 1072, 1103, 1074, 1082, 1091] \<comment> \<open>Podat' zayavku\<close>,
      [1054, 1090, 1087, 1088, 1072, 1074, 1080, 1090, 1100, 32, 1087, 1088, 1077, 1076, 1083, 1086, 1078, 1077, 1085, 1080, 1077] \<comment> \<open>Otpravit' predlozhenie\<close>]"

definition price_words :: "ustr list" where
  "price_words =
     [[8381] \<comment> \<open>(rouble sign)\<close>,
      [1088, 1091, 1073] \<comment> \<open>rub\<close>,
      [1055, 1086, 32, 1076, 1086, 1075, 1086, 1074, 1086, 1088, 1077, 1085, 1085, 1086, 1089, 1090, 1080] \<comment> \<open>Po dogovorennosti\<close>,
      [1086, 1090, 32] \<comment> \<open>ot \<close>,
      [1076, 1086, 32] \<comment> \<open>do \<close>,
      [1088, 1091, 1073, 46] \<comment> \<open>rub.\<close>]"

definition time_words :: "ustr list" where
  "time_words =
     [[1085, 1072, 1079, 1072, 1076] \<comment> \<open>nazad\<close>,
      [1095, 1072, 1089] \<comment> \<open>chas\<close>,
      [1076, 1077, 1085, 1100] \<comment> \<open>den'\<close>,
      [1084, 1080, 1085, 1091, 1090] \<comment> \<open>minut\<close>,
      [1089, 1077, 1075, 1086, 1076, 1085, 1103] \<comment> \<open>segodnya\<close>,
      [1074, 1095, 1077, 1088, 1072] \<comment> \<open>vchera\<close>]"

definition order_indicator_words :: "ustr list" where
  "order_indicator_words =
     [[1082, 1072, 1090, 1077, 1075, 1086, 1088, 1080] \<comment> \<open>kategori\<close>,
      [1079, 1072, 1082, 1072, 1079] \<comment> \<open>zakaz\<close>,
      [1087, 1088, 1086, 1077, 1082, 1090] \<comment> \<open>proekt\<close>,
      [1079, 1072, 1076, 1072, 1095] \<comment> \<open>zadach\<close>,
      [1088, 1072, 1073, 1086, 1090] \<comment> \<open>rabot\<close>,
      [1091, 1089, 1083, 1091, 1075] \<comment> \<open>uslug\<close>,
      [1080, 1089, 1087, 1086, 1083, 1085, 1080, 1090, 1077, 1083] \<comment> \<open>ispolnitel\<close>,
      [1079, 1072, 1082, 1072, 1079, 1095, 1080, 1082] \<comment> \<open>zakazchik\<close>,
      [1072, 1074, 1090, 1086, 1088] \<comment> \<open>avtor\<close>,
      [1086, 1087, 1091, 1073, 1083, 1080, 1082, 1086, 1074, 1072, 1085] \<comment> \<open>opublikovan\<close>,
      [1089, 1086, 1079, 1076, 1072, 1085] \<comment> \<open>sozdan\<close>]"

text \<open>\<^verbatim>\<open>_is_order_block\<close>, lines 208-252, on a tag.\<close>

definition has_order_link :: "node \<Rightarrow> bool" where
  "has_order_link element =
     (\<exists>(p, d) \<in> set (descendants element).
        case d of
          Text s \<Rightarrow> False
        | Tag name cls href children \<Rightarrow>
            name = ''a'' \<and>
            (case href of
               None \<Rightarrow> False
             | Some h \<Rightarrow> sublist (ascii ''order'') h \<or> sublist (ascii ''task'') h
                          \<or> sublist (ascii ''project'') h))"

definition is_order_block :: "runtime \<Rightarrow> node \<Rightarrow> bool" where
  "is_order_block U element =
     (let text = get_text element;
          has_action_button = (\<exists>word \<in> set action_words. sublist word text);
          has_price = (\<exists>word \<in> set price_words. sublist word text);
          has_time = (\<exists>word \<in> set time_words. sublist word text);
          has_order_indicators = (\<exists>word \<in> set order_indicator_words. sublist word text);
          is_substantial = (length (strip U text) > 50)
      in (has_action_button \<or> has_order_link element)
         \<and> (has_price \<or> has_time \<or> has_order_indicators)
         \<and> is_substantial)"

text \<open>The test on the node at a path; a path that leads nowhere is no block.\<close>

definition block_at :: "runtime \<Rightarrow> node \<Rightarrow> nat list \<Rightarrow> bool" where
  "block_at U soup p = (case subtree soup p of None \<Rightarrow> False | Some n \<Rightarrow> is_order_block U n)"

text \<open>\<^verbatim>\<open>block not in order_blocks\<close>: list membership compares with \<^verbatim>\<open>==\<close>.\<close>

definition not_in_blocks :: "node \<Rightarrow> nat list \<Rightarrow> nat list list \<Rightarrow> bool" where
  "not_in_blocks soup p order_blocks = (\<forall>q \<in> set order_blocks. subtree soup q \<noteq> subtree soup p)"

text \<open>
  The ancestor walks of methods 1 and 3: \<^verbatim>\<open>while parent and depth < limit\<close>, stopping at
  the first ancestor that passes the test. \<open>fuel\<close> is \<open>limit - depth\<close>.
\<close>

fun ancestor_walk :: "(nat list \<Rightarrow> bool) \<Rightarrow> nat \<Rightarrow> nat list option \<Rightarrow> nat list option" where
  "ancestor_walk ok 0 parent = None"
| "ancestor_walk ok (Suc fuel) None = None"
| "ancestor_walk ok (Suc fuel) (Some p) =
     (if ok p then Some p else ancestor_walk ok fuel (find_parent p))"

text \<open>Method 1 (lines 151-164): the text leaves with the action cue "Otkliknut'sya".\<close>

definition otkliknutsya :: ustr where
  "otkliknutsya = [1054, 1090, 1082, 1083, 1080, 1082, 1085, 1091, 1090, 1100, 1089, 1103]"

definition buttons_of :: "node \<Rightarrow> nat list list" where
  "buttons_of soup =
     map fst (filter (\<lambda>(p, d). case d of Text s \<Rightarrow> s \<noteq> [] \<and> sublist otkliknutsya s
                                      | Tag name cls href children \<Rightarrow> False)
                (descendants soup))"

fun method1 :: "runtime \<Rightarrow> node \<Rightarrow> nat list list \<Rightarrow> nat list list \<Rightarrow> nat list list" where
  "method1 U soup [] order_blocks = order_blocks"
| "method1 U soup (button # buttons) order_blocks =
     (case ancestor_walk (block_at U soup) 15 (find_parent button) of
        Some parent \<Rightarrow> method1 U soup buttons (order_blocks @ [parent])
      | None \<Rightarrow> method1 U soup buttons order_blocks)"

text \<open>Method 2 (lines 166-178): the four CSS selectors, in this order.\<close>

datatype selector = DivWithClasses "string list" | DivClassContains string

definition css_selectors :: "selector list" where
  "css_selectors =
     [DivWithClasses [''border'', ''border-gray-300''],
      DivClassContains ''border'',
      DivClassContains ''shadow'',
      DivClassContains ''rounded'']"

fun matches :: "selector \<Rightarrow> node \<Rightarrow> bool" where
  "matches sel (Text s) = False"
| "matches (DivWithClasses cs) (Tag name cls href children) =
     (name = ''div'' \<and> set cs \<subseteq> set cls)"
| "matches (DivClassContains w) (Tag name cls href children) =
     (name = ''div'' \<and> (\<exists>c \<in> set cls. sublist w c))"

definition select :: "node \<Rightarrow> selector \<Rightarrow> nat list list" where
  "select soup sel = map fst (filter (\<lambda>(p, d). matches sel d) (descendants soup))"

fun method2_blocks :: "runtime \<Rightarrow> node \<Rightarrow> nat list list \<Rightarrow> nat list list \<Rightarrow> nat list list" where
  "method2_blocks U soup [] order_blocks = order_blocks"
| "method2_blocks U soup (block # blocks) order_blocks =
     (if block_at U soup block \<and> not_in_blocks soup block order_blocks
      then method2_blocks U soup blocks (order_blocks @ [block])
      else method2_blocks U soup blocks order_blocks)"

fun method2 :: "runtime \<Rightarrow> node \<Rightarrow> selector list \<Rightarrow> nat list list \<Rightarrow> nat list list" where
  "method2 U soup [] order_blocks = order_blocks"
| "method2 U soup (sel # sels) order_blocks =
     method2 U soup sels (method2_blocks U soup (select soup sel) order_blocks)"

text \<open>Method 3 (lines 180-190): the links to \<^verbatim>\<open>order?id=\<close>.\<close>

definition order_links_of :: "node \<Rightarrow> nat list list" where
  "order_links_of soup =
     map fst (filter (\<lambda>(p, d). case d of
                        Text s \<Rightarrow> False
                      | Tag name cls href children \<Rightarrow>
                          name = ''a'' \<and>
                          (case href of None \<Rightarrow> False
                           | Some h \<Rightarrow> h \<noteq> [] \<and> sublist (ascii ''order?id='') h))
                (descendants soup))"

fun method3 :: "runtime \<Rightarrow> node \<Rightarrow> nat list list \<Rightarrow> nat list list \<Rightarrow> nat list list" where
  "method3 U soup [] order_blocks = order_blocks"
| "method3 U soup (link # links) order_blocks =
     (case ancestor_walk (\<lambda>p. block_at U soup p \<and> not_in_blocks soup p order_blocks) 10
             (find_parent link) of
        Some parent \<Rightarrow> method3 U soup links (order_blocks @ [parent])
      | None \<Rightarrow> method3 U soup links order_blocks)"

text \<open>The candidate blocks of a document, as \<^verbatim>\<open>_parse_html_response\<close> collects them.\<close>

definition locate_blocks :: "runtime \<Rightarrow> node \<Rightarrow> nat list list" where
  "locate_blocks U soup =
     method3 U soup (order_links_of soup)
       (method2 U soup css_selectors
          (method1 U soup (buttons_of soup) []))"


section \<open>Notions used to state the properties\<close>

text \<open>The value of a run of decimal digits in positional notation.\<close>

definition decimal_value :: "runtime \<Rightarrow> ustr \<Rightarrow> int" where
  "decimal_value U ds =
     (\<Sum>i<length ds. int (the (digit_of U (ds ! i))) * 10 ^ (length ds - Suc i))"

text \<open>The unit keywords of \<^verbatim>\<open>time_to_minutes\<close>, in the order of its tests.\<close>

definition unit_keywords :: "ustr list" where
  "unit_keywords =
     [kw_sekund, kw_minut, kw_chas, kw_den, kw_dnya, kw_dney, kw_nedel, kw_mesyats]"

text \<open>The phrases of the sites for the table of the normalizer: "5 minut" (5 minutes),
  "2 chasa" (2 hours), "45 sekund" (45 seconds), "3 dnya" (3 days), "1 nedelyu" (1 week).\<close>

definition ph_5_minut :: ustr where
  "ph_5_minut = [53, 32, 1084, 1080, 1085, 1091, 1090]"

definition ph_2_chasa :: ustr where
  "ph_2_chasa = [50, 32, 1095, 1072, 1089, 1072]"

definition ph_45_sekund :: ustr where
  "ph_45_sekund = [52, 53, 32, 1089, 1077, 1082, 1091, 1085, 1076]"

definition ph_3_dnya :: ustr where
  "ph_3_dnya = [51, 32, 1076, 1085, 1103]"

definition ph_1_nedelyu :: ustr where
  "ph_1_nedelyu = [49, 32, 1085, 1077, 1076, 1077, 1083, 1102]"

text \<open>
  When the key of an order raises and when it does not: \<^verbatim>\<open>int\<close> is applied to the first
  run of digits of the lower-cased text, unless the text is empty or the sentinel. So the
  key returns exactly when the text is empty or the sentinel, or there is no run of digits,
  or the first run is within the limit of the interpreter (see \<open>ttm_within_limit\<close> and
  \<open>ttm_beyond_limit\<close>).
\<close>

definition digits_within_limit :: "runtime \<Rightarrow> pyval \<Rightarrow> bool" where
  "digits_within_limit U v =
     (case v of
        PNone \<Rightarrow> True
      | PStr raw \<Rightarrow>
          raw = [] \<or> raw = nedavno \<or>
          (case findall_digits (is_digit U) (lower_of U raw) of
             [] \<Rightarrow> True
           | ds # _ \<Rightarrow> max_str_digits U = 0 \<or> length ds \<le> max_str_digits U))"

text \<open>The publication text of an order, as the key reads it, and the ordinal the sort
  orders by: the value of the key, where the key does not raise.\<close>

definition published :: "order \<Rightarrow> pyval" where
  "published x = dict_get_default x ''published'' (PStr [])"

definition recency_ordinal :: "runtime \<Rightarrow> order \<Rightarrow> int" where
  "recency_ordinal U x = projr (published_key U x)"

text \<open>Sample phrases "60 minut" and "1 chas", and sample orders whose publication texts
  are "2 chasa", "Nedavno", "60 minut" and "1 chas": their ordinals are 120, 0, 60 and 60.\<close>

definition ph_60_minut :: ustr where
  "ph_60_minut = [54, 48, 32, 1084, 1080, 1085, 1091, 1090]"

definition ph_1_chas :: ustr where
  "ph_1_chas = [49, 32, 1095, 1072, 1089]"

definition order_a :: order where
  "order_a = [(''id'', PStr (ascii ''a'')), (''published'', PStr ph_2_chasa)]"

definition order_b :: order where
  "order_b = [(''id'', PStr (ascii ''b'')), (''published'', PStr nedavno)]"

definition order_c :: order where
  "order_c = [(''id'', PStr (ascii ''c'')), (''published'', PStr ph_60_minut)]"

definition order_d :: order where
  "order_d = [(''id'', PStr (ascii ''d'')), (''published'', PStr ph_1_chas)]"

text \<open>The identity of an order, \<^verbatim>\<open>order.get('id')\<close>, and the identities of a list of orders.\<close>

definition order_id :: "order \<Rightarrow> pyval" where
  "order_id x = dict_get x ''id''"

definition ids_of :: "order list \<Rightarrow> pyval set" where
  "ids_of xs = order_id ` set xs"

text \<open>The orders of a list that carry a usable identity outside \<open>S\<close>, each identity at its
  first occurrence only: what both filters keep (see \<open>new_orders_loop_fresh\<close> and
  \<open>filter_unique_loop_fresh\<close>).\<close>

fun fresh :: "pyval set \<Rightarrow> order list \<Rightarrow> order list" where
  "fresh S [] = []"
| "fresh S (x # xs) =
     (if truthy (order_id x) \<and> order_id x \<notin> S then x # fresh (insert (order_id x) S) xs
      else fresh S xs)"

text \<open>A process lifetime of one object: the calls of a method run one after the other,
  each on the state the previous call left; the result is what each call returned.\<close>

fun run_with :: "('s \<Rightarrow> 'i \<Rightarrow> 'o \<times> 's) \<Rightarrow> 's \<Rightarrow> 'i list \<Rightarrow> 'o list" where
  "run_with step s [] = []"
| "run_with step s (x # xs) = (let (out, s') = step s x in out # run_with step s' xs)"

text \<open>Sample records without a usable identity: the key is missing, its value is
  \<^verbatim>\<open>None\<close>, its value is the empty string.\<close>

definition order_no_id :: order where
  "order_no_id = [(''title'', PStr (ascii ''t1''))]"

definition order_none_id :: order where
  "order_none_id = [(''id'', PNone), (''title'', PStr (ascii ''t2''))]"

definition order_empty_id :: order where
  "order_empty_id = [(''id'', PStr []), (''title'', PStr (ascii ''t3''))]"

text \<open>Sample records of two sources with the same identity "X".\<close>

definition order_x1 :: order where
  "order_x1 = [(''id'', PStr (ascii ''X'')), (''source'', PStr (ascii ''freelancespace.ru''))]"

definition order_x2 :: order where
  "order_x2 = [(''id'', PStr (ascii ''X'')), (''source'', PStr (ascii ''FL.ru''))]"

text \<open>A sample site that answers every page request with the record \<open>order_x1\<close>.\<close>

definition server_x1 :: "int \<Rightarrow> page_outcome" where
  "server_x1 page = Response 200 [order_x1]"

text \<open>A sample site that answers every page request with one record whose identity is
  \<^verbatim>\<open>None\<close>.\<close>

definition server_none_id :: "int \<Rightarrow> page_outcome" where
  "server_none_id page = Response 200 [order_none_id]"

text \<open>A fetch failure: a timeout, a connection error, or a response whose status is not
  200; and what a page contributes to \<^verbatim>\<open>all_orders\<close> when the loop goes past it.\<close>

definition fetch_failure :: "page_outcome \<Rightarrow> bool" where
  "fetch_failure r =
     (case r of
        Timeout \<Rightarrow> True
      | ConnectionError \<Rightarrow> True
      | OtherException \<Rightarrow> False
      | Response status orders \<Rightarrow> status \<noteq> 200)"

definition extracted :: "(int \<Rightarrow> page_outcome) \<Rightarrow> int \<Rightarrow> order list" where
  "extracted server page =
     (case server page of
        Response status orders \<Rightarrow> if status = 200 then orders else []
      | Timeout \<Rightarrow> []
      | ConnectionError \<Rightarrow> []
      | OtherException \<Rightarrow> [])"

text \<open>A sample site: page 1 holds one order, the request of page 2 fails with a connection
  error, page 3 (never requested) would hold another order.\<close>

definition server_refused_2 :: "int \<Rightarrow> page_outcome" where
  "server_refused_2 page =
     (if page = 1 then Response 200 [order_a]
      else if page = 2 then ConnectionError
      else Response 200 [order_c])"

text \<open>Sample author containers: one span of the first kind (classes \<^verbatim>\<open>hidden sm:inline\<close>) and
  one of the second kind (classes \<^verbatim>\<open>text-gray-800 font-semibold\<close>), each with the doubled
  name "IvanIvan".\<close>

definition span_hidden_doubled :: span where
  "span_hidden_doubled =
     \<lparr> span_class = [''hidden'', ''sm:inline''], span_text = ascii ''IvanIvan'' \<rparr>"

definition span_semibold_doubled :: span where
  "span_semibold_doubled =
     \<lparr> span_class = [''text-gray-800'', ''font-semibold''], span_text = ascii ''IvanIvan'' \<rparr>"

text \<open>A sample hash function, to run the identity functions: any function on strings
  will do, since nothing is assumed of \<^verbatim>\<open>hash\<close>.\<close>

definition sample_hash :: "ustr \<Rightarrow> int" where
  "sample_hash s = int (sum_list s) - 5000"

text \<open>The literal the identity of a FreelanceSpace listing is cut after.\<close>

definition order_marker :: ustr where
  "order_marker = ascii ''order?id=''"

text \<open>The literal an FL.ru identity is searched after.\<close>

definition projects_marker :: ustr where
  "projects_marker = ascii ''/projects/''"

text \<open>
  A sample document: one bordered block with a heading, a paragraph with a price in
  roubles, and the action cue "Otkliknut'sya" twice, on a button for wide screens and on
  a button for narrow screens.
\<close>

definition block_two_cues :: node where
  "block_two_cues =
     Tag ''div'' [''border'', ''border-gray-300''] None
       [Tag ''h2'' [] None [Text (ascii ''Landing page for an online shop'')],
        Tag ''p'' [] None [Text (ascii ''Fixed budget 5000 '' @ [8381])],
        Tag ''button'' [''hidden'', ''sm:inline''] None [Text otkliknutsya],
        Tag ''button'' [''sm:hidden''] None [Text otkliknutsya]]"

definition doc_two_cues :: node where
  "doc_two_cues = Tag ''[document]'' [] None [block_two_cues]"

text \<open>Sample texts with a run of 4301 digits, one more than the default limit of
  \<^verbatim>\<open>int\<close>: 4301 nines, and 4301 nines followed by " minut" (minutes).\<close>

definition ph_long_digits :: ustr where
  "ph_long_digits = replicate 4301 57"

definition ph_long_minut :: ustr where
  "ph_long_minut = replicate 4301 57 @ 32 # kw_minut"

text \<open>A sample order whose publication text begins with 4301 digits.\<close>

definition order_big :: order where
  "order_big = [(''id'', PStr (ascii ''big'')), (''published'', PStr ph_long_minut)]"

text \<open>What a call that may raise hands to its caller: the orders it returned, and none
  when it raised.\<close>

definition returned :: "py_error + order list \<Rightarrow> order list" where
  "returned r = (case r of Inl e \<Rightarrow> [] | Inr orders \<Rightarrow> orders)"

text \<open>At position \<open>i\<close> the link reads \<^verbatim>\<open>/projects/\<close>, then the digits \<open>g\<close> (one or more), then
  \<^verbatim>\<open>/\<close>: a match of the pattern \<^verbatim>\<open>/projects/(\d+)/\<close> at \<open>i\<close> with group \<open>g\<close>.\<close>

definition project_match :: "(nat \<Rightarrow> bool) \<Rightarrow> ustr \<Rightarrow> nat \<Rightarrow> ustr \<Rightarrow> bool" where
  "project_match d href i g \<longleftrightarrow>
     g \<noteq> [] \<and> (\<forall>c \<in> set g. d c) \<and> prefix (projects_marker @ g @ [47]) (drop i href)"

section \<open>The recency normalizer and the limit of int\<close>

lemmas kw_defs = nedavno_def kw_sekund_def kw_minut_def kw_chas_def kw_den_def kw_dnya_def
  kw_dney_def kw_nedel_def kw_mesyats_def

lemmas ph_defs = ph_5_minut_def ph_2_chasa_def ph_45_sekund_def ph_3_dnya_def ph_1_nedelyu_def

lemmas eval_defs = time_to_minutes_def basic_runtime_def lower_cp_def is_digit_def py_int_def
  subscript_def kw_defs ascii_def sublist_Cons_right

lemma findall_runs: "r \<in> set (findall_digits d s) \<Longrightarrow> r \<noteq> [] \<and> (\<forall>c \<in> set r. d c)"
proof (induction d s rule: findall_digits.induct)
  case (1 d) then show ?case by simp
next
  case (2 d c cs)
  show ?case
  proof (cases "d c")
    case True
    with 2 show ?thesis by (auto dest: set_takeWhileD)
  next
    case False
    with 2 show ?thesis by simp
  qed
qed

lemma findall_empty: "findall_digits d s = [] \<longleftrightarrow> (\<forall>c \<in> set s. \<not> d c)"
  by (induction d s rule: findall_digits.induct) auto

lemma findall_skip: "\<forall>c \<in> set pre. \<not> d c \<Longrightarrow> findall_digits d (pre @ s) = findall_digits d s"
  by (induction pre) auto

lemma findall_first:
  assumes "\<forall>c \<in> set pre. \<not> d c" "ds \<noteq> []" "\<forall>c \<in> set ds. d c" "post = [] \<or> \<not> d (hd post)"
  shows "findall_digits d (pre @ ds @ post) \<noteq> [] \<and> hd (findall_digits d (pre @ ds @ post)) = ds"
proof -
  obtain c cs where ds: "ds = c # cs" using assms(2) by (cases ds) auto
  have tw: "takeWhile d (ds @ post) = ds"
    using assms(3,4) by (cases post) (auto simp: takeWhile_append2 takeWhile_eq_all_conv)
  have "findall_digits d (pre @ ds @ post) = findall_digits d (ds @ post)"
    using assms(1) by (rule findall_skip)
  moreover have "findall_digits d (ds @ post) \<noteq> [] \<and> hd (findall_digits d (ds @ post)) = takeWhile d (ds @ post)"
    using assms(3) by (simp add: ds)
  ultimately show ?thesis using tw by simp
qed

lemma foldl_digits_nonneg:
  "0 \<le> a \<Longrightarrow> 0 \<le> foldl (\<lambda>acc c. 10 * acc + int (f c)) a ds"
  by (induction ds arbitrary: a) auto

lemma foldl_digits_value:
  "foldl (\<lambda>acc c. 10 * acc + int (the (digit_of U c))) 0 ds = decimal_value U ds"
proof (induction ds rule: rev_induct)
  case Nil
  show ?case by (simp add: decimal_value_def)
next
  case (snoc c ds)
  have "decimal_value U (ds @ [c]) =
        (\<Sum>i<length ds. int (the (digit_of U (ds ! i))) * 10 ^ (Suc (length ds) - Suc i)) + int (the (digit_of U c))"
    by (simp add: decimal_value_def nth_append)
  also have "(\<Sum>i<length ds. int (the (digit_of U (ds ! i))) * 10 ^ (Suc (length ds) - Suc i))
           = (\<Sum>i<length ds. 10 * (int (the (digit_of U (ds ! i))) * 10 ^ (length ds - Suc i)))"
    by (rule sum.cong) (simp_all add: Suc_diff_Suc power_Suc [symmetric] del: power_Suc)
  also have "\<dots> = 10 * decimal_value U ds"
    by (simp add: decimal_value_def sum_distrib_left)
  finally show ?case using snoc by simp
qed

lemma py_int_run:
  assumes "ds \<noteq> []" "\<forall>c \<in> set ds. is_digit U c"
    "max_str_digits U = 0 \<or> length ds \<le> max_str_digits U"
  shows "py_int U ds = Inr (decimal_value U ds)"
  using assms by (auto simp: py_int_def is_digit_def foldl_digits_value)

lemma py_int_long:
  assumes "max_str_digits U \<noteq> 0" "length ds > max_str_digits U"
  shows "py_int U ds = Inl ValueError"
  using assms by (auto simp: py_int_def)

lemma decimal_value_nonneg: "0 \<le> decimal_value U ds"
  unfolding decimal_value_def by (rule sum_nonneg) simp

text \<open>The key returns when the first run of digits is within the limit, and raises
  \<^verbatim>\<open>ValueError\<close> when it is not.\<close>

lemma ttm_within_limit:
  assumes "digits_within_limit U v"
  shows "\<exists>n. time_to_minutes U v = Inr n \<and> 0 \<le> n"
proof (cases v)
  case PNone
  then show ?thesis by (simp add: time_to_minutes_def)
next
  case (PStr raw)
  let ?s = "lower_of U raw"
  let ?ns = "findall_digits (is_digit U) ?s"
  show ?thesis
  proof (cases "raw = [] \<or> raw = nedavno \<or> ?ns = []")
    case True
    then show ?thesis using PStr by (auto simp: time_to_minutes_def Let_def)
  next
    case False
    then obtain r rs where ns: "?ns = r # rs" by (cases ?ns) auto
    then have "r \<in> set ?ns" by simp
    then have r: "r \<noteq> []" "\<forall>c \<in> set r. is_digit U c" using findall_runs by blast+
    have "max_str_digits U = 0 \<or> length r \<le> max_str_digits U"
      using assms PStr ns False by (simp add: digits_within_limit_def)
    then have pi: "py_int U r = Inr (decimal_value U r)" using r by (intro py_int_run)
    have "0 \<le> decimal_value U r" by (rule decimal_value_nonneg)
    then have "0 \<le> decimal_value U r div 60" by simp
    with \<open>0 \<le> decimal_value U r\<close> show ?thesis
      using PStr False ns pi by (auto simp: time_to_minutes_def Let_def subscript_def max_def)
  qed
qed

lemma ttm_beyond_limit:
  assumes "\<not> digits_within_limit U v"
  shows "time_to_minutes U v = Inl ValueError"
proof -
  obtain raw where v: "v = PStr raw" using assms by (cases v) (simp_all add: digits_within_limit_def)
  let ?ns = "findall_digits (is_digit U) (lower_of U raw)"
  have n: "raw \<noteq> []" "raw \<noteq> nedavno" using assms v by (auto simp: digits_within_limit_def)
  obtain r rs where ns: "?ns = r # rs" and long: "max_str_digits U \<noteq> 0" "length r > max_str_digits U"
    using assms v by (cases ?ns) (auto simp: digits_within_limit_def)
  have "py_int U r = Inl ValueError" using long by (rule py_int_long)
  then show ?thesis
    using n ns v by (simp add: time_to_minutes_def Let_def subscript_def)
qed

lemma ttm_raises_iff: "isl (time_to_minutes U v) \<longleftrightarrow> \<not> digits_within_limit U v"
  using ttm_within_limit [of U v] ttm_beyond_limit [of U v] by auto

lemma digits_within_limit_first_run:
  assumes "lower_of U raw = pre @ ds @ post"
    "\<forall>c \<in> set pre. \<not> is_digit U c" "ds \<noteq> []" "\<forall>c \<in> set ds. is_digit U c"
    "post = [] \<or> \<not> is_digit U (hd post)"
  shows "digits_within_limit U (PStr raw)
    \<longleftrightarrow> raw = [] \<or> raw = nedavno \<or> max_str_digits U = 0 \<or> length ds \<le> max_str_digits U"
proof -
  let ?ns = "findall_digits (is_digit U) (lower_of U raw)"
  have "?ns \<noteq> []" "hd ?ns = ds" using findall_first [OF assms(2-5)] assms(1) by simp_all
  then obtain rs where "?ns = ds # rs" by (cases ?ns) auto
  then show ?thesis by (simp add: digits_within_limit_def)
qed

lemma digits_within_limit_no_digit:
  "\<forall>c \<in> set (lower_of U raw). \<not> is_digit U c \<Longrightarrow> digits_within_limit U (PStr raw)"
  by (simp add: digits_within_limit_def findall_empty [THEN iffD2])

lemma ttm_no_digit:
  "\<forall>c \<in> set (lower_of U raw). \<not> is_digit U c \<Longrightarrow> time_to_minutes U (PStr raw) = Inr 0"
  by (simp add: time_to_minutes_def Let_def findall_empty)

lemma ttm_no_unit:
  assumes "digits_within_limit U (PStr raw)"
    "\<forall>k \<in> set unit_keywords. \<not> sublist k (lower_of U raw)"
  shows "time_to_minutes U (PStr raw) = Inr 0"
proof -
  obtain n where n: "time_to_minutes U (PStr raw) = Inr n"
    using ttm_within_limit [OF assms(1)] by blast
  show ?thesis
    using assms(2) n
    by (auto simp: time_to_minutes_def Let_def unit_keywords_def split: if_splits sum.splits)
qed

lemma ttm_first_run:
  assumes "raw \<noteq> []" "raw \<noteq> nedavno" "lower_of U raw = pre @ ds @ post"
    "\<forall>c \<in> set pre. \<not> is_digit U c" "ds \<noteq> []" "\<forall>c \<in> set ds. is_digit U c"
    "post = [] \<or> \<not> is_digit U (hd post)"
    "max_str_digits U = 0 \<or> length ds \<le> max_str_digits U"
  shows "time_to_minutes U (PStr raw) =
     Inr (let s = lower_of U raw; num = decimal_value U ds in
          if sublist kw_sekund s then max 1 (num div 60)
          else if sublist kw_minut s then num
          else if sublist kw_chas s then num * 60
          else if sublist kw_den s \<or> sublist kw_dnya s \<or> sublist kw_dney s then num * 24 * 60
          else if sublist kw_nedel s then num * 7 * 24 * 60
          else if sublist kw_mesyats s then num * 30 * 24 * 60
          else 0)"
proof -
  let ?ns = "findall_digits (is_digit U) (lower_of U raw)"
  have ne: "?ns \<noteq> []" and h: "hd ?ns = ds"
    using findall_first [OF assms(4-7)] assms(3) by simp_all
  then have s0: "subscript ?ns 0 = Inr ds" by (cases ?ns) (simp_all add: subscript_def)
  have pi: "py_int U ds = Inr (decimal_value U ds)" using assms(5,6,8) by (rule py_int_run)
  show ?thesis
    using assms(1,2) ne s0 pi by (simp add: time_to_minutes_def Let_def)
qed

text \<open>The two sample texts with 4301 digits are beyond the default limit.\<close>

lemma long_run_beyond_limit:
  assumes "post = [] \<or> \<not> is_digit basic_runtime (hd post)" "\<forall>c \<in> set post. lower_cp c = c"
  shows "\<not> digits_within_limit basic_runtime (PStr (replicate 4301 57 @ post))"
proof -
  have l: "lower_of basic_runtime (replicate 4301 57 @ post) = [] @ replicate 4301 57 @ post"
    using assms(2) by (simp add: basic_runtime_def lower_cp_def map_idI)
  have d: "\<forall>c \<in> set (replicate 4301 57). is_digit basic_runtime c"
    by (simp add: is_digit_def basic_runtime_def)
  have "digits_within_limit basic_runtime (PStr (replicate 4301 57 @ post))
      \<longleftrightarrow> replicate 4301 57 @ post = [] \<or> replicate 4301 57 @ post = nedavno
          \<or> max_str_digits basic_runtime = 0
          \<or> length (replicate 4301 (57::nat)) \<le> max_str_digits basic_runtime"
    by (rule digits_within_limit_first_run [OF l _ _ d assms(1)]) simp_all
  moreover have "replicate 4301 57 @ post \<noteq> nedavno"
    by (auto simp: nedavno_def dest: arg_cong [where f = hd])
  ultimately show ?thesis by (simp add: basic_runtime_def)
qed

lemma long_digits_raise:
  "time_to_minutes basic_runtime (PStr ph_long_digits) = Inl ValueError"
proof -
  have "\<not> digits_within_limit basic_runtime (PStr (replicate 4301 57 @ []))"
    by (rule long_run_beyond_limit) simp_all
  then show ?thesis using ttm_beyond_limit [of basic_runtime "PStr ph_long_digits"]
    by (simp add: ph_long_digits_def)
qed

lemma long_minut_raise:
  "time_to_minutes basic_runtime (PStr ph_long_minut) = Inl ValueError"
proof -
  have "\<not> digits_within_limit basic_runtime (PStr (replicate 4301 57 @ 32 # kw_minut))"
    by (rule long_run_beyond_limit)
       (simp_all add: is_digit_def basic_runtime_def kw_minut_def lower_cp_def)
  then show ?thesis using ttm_beyond_limit [of basic_runtime "PStr ph_long_minut"]
    by (simp add: ph_long_minut_def)
qed

text \<open>
  Claim C5 at a text with 4301 digits. \<^verbatim>\<open>time_to_minutes\<close> returns 0 where it finds no
  digit and where it finds no unit, but it passes the first run of digits to \<^verbatim>\<open>int\<close>
  unguarded: on 4301 nines, alone or followed by " minut", \<^verbatim>\<open>int\<close> raises
  \<^verbatim>\<open>ValueError\<close> under the default limit, and the exception leaves \<^verbatim>\<open>time_to_minutes\<close>
  instead of a number.
\<close>

theorem time_to_minutes_raises_on_long_digit_run:
  "length ph_long_digits = 4301
   \<and> time_to_minutes basic_runtime (PStr ph_long_digits) = Inl ValueError
   \<and> time_to_minutes basic_runtime (PStr ph_long_minut) = Inl ValueError"
  using long_digits_raise long_minut_raise by (simp add: ph_long_digits_def)

theorem time_to_minutes_raises_on_long_digit_run_witness:
  "truthy (PStr ph_long_digits) \<and> PStr ph_long_digits \<noteq> PStr nedavno
   \<and> isl (time_to_minutes basic_runtime (PStr ph_long_digits))
   \<and> isl (time_to_minutes basic_runtime (PStr ph_long_minut))"
proof -
  have l: "length ph_long_digits = 4301"
    using time_to_minutes_raises_on_long_digit_run by simp
  have n: "ph_long_digits \<noteq> nedavno"
  proof
    assume "ph_long_digits = nedavno"
    then have "length ph_long_digits = length nedavno" by simp
    then show False using l by (simp add: nedavno_def)
  qed
  have e: "ph_long_digits \<noteq> []"
  proof
    assume "ph_long_digits = []"
    then have "length ph_long_digits = 0" by simp
    then show False using l by simp
  qed
  show ?thesis using n e time_to_minutes_raises_on_long_digit_run by simp
qed

section \<open>The table and the algorithm of the recency normalizer\<close>

lemma tab1: "time_to_minutes basic_runtime (PStr []) = Inr 0" by (simp add: time_to_minutes_def)
lemma tab2: "time_to_minutes basic_runtime (PStr nedavno) = Inr 0" by (simp add: time_to_minutes_def)
lemma tab3: "time_to_minutes basic_runtime (PStr ph_5_minut) = Inr 5" by (simp add: eval_defs ph_defs)
lemma tab4: "time_to_minutes basic_runtime (PStr ph_2_chasa) = Inr 120" by (simp add: eval_defs ph_defs)
lemma tab5: "time_to_minutes basic_runtime (PStr ph_45_sekund) = Inr 1" by (simp add: eval_defs ph_defs)
lemma tab6: "time_to_minutes basic_runtime (PStr ph_3_dnya) = Inr 4320" by (simp add: eval_defs ph_defs)
lemma tab7: "time_to_minutes basic_runtime (PStr ph_1_nedelyu) = Inr 10080" by (simp add: eval_defs ph_defs)
lemma tab8: "time_to_minutes basic_runtime (PStr (ascii ''garbled text'')) = Inr 0" by (simp add: eval_defs ph_defs)

text \<open>
  Claim C3, with the phrases in the language of the unit keywords. The empty string and
  the sentinel "Nedavno" give 0, "5 minut" 5, "2 chasa" 120, "45 sekund" 1, "3 dnya" 4320,
  "1 nedelyu" 10080 and "garbled text" 0; a string without digits gives 0, and so does a
  string without unit keyword whose first run of digits is within the limit of \<^verbatim>\<open>int\<close>.
  In general, for a first run of digits within that limit, the value is that run read in
  base 10, and the unit is the first keyword found in the order seconds, minutes, hours,
  days, weeks, months, with the factors \<open>max 1 (value div 60)\<close>, 1, 60, 1440, 10080, 43200.
\<close>

theorem recency_normalizer_table:
  "time_to_minutes basic_runtime (PStr []) = Inr 0
   \<and> time_to_minutes basic_runtime (PStr nedavno) = Inr 0
   \<and> time_to_minutes basic_runtime (PStr ph_5_minut) = Inr 5
   \<and> time_to_minutes basic_runtime (PStr ph_2_chasa) = Inr 120
   \<and> time_to_minutes basic_runtime (PStr ph_45_sekund) = Inr 1
   \<and> time_to_minutes basic_runtime (PStr ph_3_dnya) = Inr 4320
   \<and> time_to_minutes basic_runtime (PStr ph_1_nedelyu) = Inr 10080
   \<and> time_to_minutes basic_runtime (PStr (ascii ''garbled text'')) = Inr 0
   \<and> ((\<forall>c \<in> set (lower_of U raw). \<not> is_digit U c) \<longrightarrow> time_to_minutes U (PStr raw) = Inr 0)
   \<and> (digits_within_limit U (PStr raw) \<and> (\<forall>k \<in> set unit_keywords. \<not> sublist k (lower_of U raw))
        \<longrightarrow> time_to_minutes U (PStr raw) = Inr 0)
   \<and> (raw \<noteq> [] \<and> raw \<noteq> nedavno \<and> lower_of U raw = pre @ ds @ post
        \<and> (\<forall>c \<in> set pre. \<not> is_digit U c) \<and> ds \<noteq> [] \<and> (\<forall>c \<in> set ds. is_digit U c)
        \<and> (post = [] \<or> \<not> is_digit U (hd post))
        \<and> (max_str_digits U = 0 \<or> length ds \<le> max_str_digits U)
      \<longrightarrow> (let s = lower_of U raw; num = decimal_value U ds; r = time_to_minutes U (PStr raw) in
           (sublist kw_sekund s \<longrightarrow> r = Inr (max 1 (num div 60)))
         \<and> (\<not> sublist kw_sekund s \<and> sublist kw_minut s \<longrightarrow> r = Inr num)
         \<and> (\<not> sublist kw_sekund s \<and> \<not> sublist kw_minut s \<and> sublist kw_chas s \<longrightarrow> r = Inr (num * 60))
         \<and> (\<not> sublist kw_sekund s \<and> \<not> sublist kw_minut s \<and> \<not> sublist kw_chas s
              \<and> (sublist kw_den s \<or> sublist kw_dnya s \<or> sublist kw_dney s) \<longrightarrow> r = Inr (num * 1440))
         \<and> (\<not> sublist kw_sekund s \<and> \<not> sublist kw_minut s \<and> \<not> sublist kw_chas s
              \<and> \<not> sublist kw_den s \<and> \<not> sublist kw_dnya s \<and> \<not> sublist kw_dney s
              \<and> sublist kw_nedel s \<longrightarrow> r = Inr (num * 10080))
         \<and> (\<not> sublist kw_sekund s \<and> \<not> sublist kw_minut s \<and> \<not> sublist kw_chas s
              \<and> \<not> sublist kw_den s \<and> \<not> sublist kw_dnya s \<and> \<not> sublist kw_dney s
              \<and> \<not> sublist kw_nedel s \<and> sublist kw_mesyats s \<longrightarrow> r = Inr (num * 43200))))"
proof -
  have g: "raw \<noteq> [] \<and> raw \<noteq> nedavno \<and> lower_of U raw = pre @ ds @ post
        \<and> (\<forall>c \<in> set pre. \<not> is_digit U c) \<and> ds \<noteq> [] \<and> (\<forall>c \<in> set ds. is_digit U c)
        \<and> (post = [] \<or> \<not> is_digit U (hd post))
        \<and> (max_str_digits U = 0 \<or> length ds \<le> max_str_digits U)
      \<longrightarrow> (let s = lower_of U raw; num = decimal_value U ds; r = time_to_minutes U (PStr raw) in
           (sublist kw_sekund s \<longrightarrow> r = Inr (max 1 (num div 60)))
         \<and> (\<not> sublist kw_sekund s \<and> sublist kw_minut s \<longrightarrow> r = Inr num)
         \<and> (\<not> sublist kw_sekund s \<and> \<not> sublist kw_minut s \<and> sublist kw_chas s \<longrightarrow> r = Inr (num * 60))
         \<and> (\<not> sublist kw_sekund s \<and> \<not> sublist kw_minut s \<and> \<not> sublist kw_chas s
              \<and> (sublist kw_den s \<or> sublist kw_dnya s \<or> sublist kw_dney s) \<longrightarrow> r = Inr (num * 1440))
         \<and> (\<not> sublist kw_sekund s \<and> \<not> sublist kw_minut s \<and> \<not> sublist kw_chas s
              \<and> \<not> sublist kw_den s \<and> \<not> sublist kw_dnya s \<and> \<not> sublist kw_dney s
              \<and> sublist kw_nedel s \<longrightarrow> r = Inr (num * 10080))
         \<and> (\<not> sublist kw_sekund s \<and> \<not> sublist kw_minut s \<and> \<not> sublist kw_chas s
              \<and> \<not> sublist kw_den s \<and> \<not> sublist kw_dnya s \<and> \<not> sublist kw_dney s
              \<and> \<not> sublist kw_nedel s \<and> sublist kw_mesyats s \<longrightarrow> r = Inr (num * 43200)))"
  proof (intro impI, elim conjE)
    assume a: "raw \<noteq> []" "raw \<noteq> nedavno" "lower_of U raw = pre @ ds @ post"
      "\<forall>c \<in> set pre. \<not> is_digit U c" "ds \<noteq> []" "\<forall>c \<in> set ds. is_digit U c"
      "post = [] \<or> \<not> is_digit U (hd post)"
      "max_str_digits U = 0 \<or> length ds \<le> max_str_digits U"
    show "let s = lower_of U raw; num = decimal_value U ds; r = time_to_minutes U (PStr raw) in
           (sublist kw_sekund s \<longrightarrow> r = Inr (max 1 (num div 60)))
         \<and> (\<not> sublist kw_sekund s \<and> sublist kw_minut s \<longrightarrow> r = Inr num)
         \<and> (\<not> sublist kw_sekund s \<and> \<not> sublist kw_minut s \<and> sublist kw_chas s \<longrightarrow> r = Inr (num * 60))
         \<and> (\<not> sublist kw_sekund s \<and> \<not> sublist kw_minut s \<and> \<not> sublist kw_chas s
              \<and> (sublist kw_den s \<or> sublist kw_dnya s \<or> sublist kw_dney s) \<longrightarrow> r = Inr (num * 1440))
         \<and> (\<not> sublist kw_sekund s \<and> \<not> sublist kw_minut s \<and> \<not> sublist kw_chas s
              \<and> \<not> sublist kw_den s \<and> \<not> sublist kw_dnya s \<and> \<not> sublist kw_dney s
              \<and> sublist kw_nedel s \<longrightarrow> r = Inr (num * 10080))
         \<and> (\<not> sublist kw_sekund s \<and> \<not> sublist kw_minut s \<and> \<not> sublist kw_chas s
              \<and> \<not> sublist kw_den s \<and> \<not> sublist kw_dnya s \<and> \<not> sublist kw_dney s
              \<and> \<not> sublist kw_nedel s \<and> sublist kw_mesyats s \<longrightarrow> r = Inr (num * 43200))"
      unfolding ttm_first_run [OF a] Let_def by simp
  qed
  show ?thesis
    using tab1 tab2 tab3 tab4 tab5 tab6 tab7 tab8 ttm_no_digit [of U raw] ttm_no_unit [of U raw] g
    by blast
qed

theorem recency_normalizer_table_witness:
  "list_all (\<lambda>c. \<not> is_digit basic_runtime c) (lower_of basic_runtime (ascii ''garbled text''))
   \<and> time_to_minutes basic_runtime (PStr (ascii ''garbled text'')) = Inr 0
   \<and> digits_within_limit basic_runtime (PStr (ascii ''7 up''))
   \<and> list_all (\<lambda>k. \<not> sublist k (lower_of basic_runtime (ascii ''7 up''))) unit_keywords
   \<and> time_to_minutes basic_runtime (PStr (ascii ''7 up'')) = Inr 0
   \<and> lower_of basic_runtime [50, 32, 1063, 1072, 1089, 1072] = [] @ [50] @ [32, 1095, 1072, 1089, 1072]
   \<and> list_all (is_digit basic_runtime) [50]
   \<and> \<not> is_digit basic_runtime (hd [32, 1095, 1072, 1089, 1072])
   \<and> length [50::nat] \<le> max_str_digits basic_runtime
   \<and> \<not> sublist kw_sekund (lower_of basic_runtime [50, 32, 1063, 1072, 1089, 1072])
   \<and> \<not> sublist kw_minut (lower_of basic_runtime [50, 32, 1063, 1072, 1089, 1072])
   \<and> sublist kw_chas (lower_of basic_runtime [50, 32, 1063, 1072, 1089, 1072])
   \<and> decimal_value basic_runtime [50] = 2
   \<and> time_to_minutes basic_runtime (PStr [50, 32, 1063, 1072, 1089, 1072]) = Inr 120"
proof -
  let ?raw = "[50, 32, 1063, 1072, 1089, 1072] :: ustr"
  have h1: "\<forall>c \<in> set (lower_of basic_runtime (ascii ''garbled text'')). \<not> is_digit basic_runtime c"
    by (simp add: basic_runtime_def lower_cp_def is_digit_def ascii_def)
  have h2: "\<forall>k \<in> set unit_keywords. \<not> sublist k (lower_of basic_runtime (ascii ''7 up''))"
    by (simp add: unit_keywords_def basic_runtime_def lower_cp_def ascii_def kw_defs sublist_Cons_right)
  have h2': "digits_within_limit basic_runtime (PStr (ascii ''7 up''))"
    by (simp add: digits_within_limit_def basic_runtime_def lower_cp_def is_digit_def ascii_def
        nedavno_def)
  have h3: "?raw \<noteq> [] \<and> ?raw \<noteq> nedavno
      \<and> lower_of basic_runtime ?raw = [] @ [50] @ [32, 1095, 1072, 1089, 1072]
      \<and> (\<forall>c \<in> set []. \<not> is_digit basic_runtime c) \<and> [50::nat] \<noteq> []
      \<and> (\<forall>c \<in> set [50]. is_digit basic_runtime c)
      \<and> ([32, 1095, 1072, 1089, 1072] = [] \<or> \<not> is_digit basic_runtime (hd [32, 1095, 1072, 1089, 1072]))
      \<and> (max_str_digits basic_runtime = 0 \<or> length [50::nat] \<le> max_str_digits basic_runtime)"
    by (simp add: basic_runtime_def lower_cp_def is_digit_def kw_defs)
  have k: "\<not> sublist kw_sekund (lower_of basic_runtime ?raw)"
      "\<not> sublist kw_minut (lower_of basic_runtime ?raw)"
      "sublist kw_chas (lower_of basic_runtime ?raw)"
    by (simp_all add: basic_runtime_def lower_cp_def kw_defs sublist_Cons_right)
  have v: "decimal_value basic_runtime [50] = 2"
    by (simp add: decimal_value_def basic_runtime_def)
  have r1: "time_to_minutes basic_runtime (PStr (ascii ''garbled text'')) = Inr 0"
    using recency_normalizer_table [of basic_runtime "ascii ''garbled text''"] h1 by blast
  have r2: "time_to_minutes basic_runtime (PStr (ascii ''7 up'')) = Inr 0"
    using recency_normalizer_table [of basic_runtime "ascii ''7 up''"] h2 h2' by blast
  have r3: "time_to_minutes basic_runtime (PStr ?raw) = Inr (decimal_value basic_runtime [50] * 60)"
    using recency_normalizer_table [of basic_runtime ?raw "[]" "[50]" "[32, 1095, 1072, 1089, 1072]"] h3 k
    unfolding Let_def by blast
  have l: "length [50::nat] \<le> max_str_digits basic_runtime" by (simp add: basic_runtime_def)
  show ?thesis unfolding list_all_iff using h1 h2 h2' h3 k v r1 r2 r3 l by simp
qed

text \<open>
  The English renderings of the phrases are not recognised: "5 minutes" and "2 hours" hold
  a number but none of the unit keywords, so they give 0, not 5 and 120. A text without
  unit keyword that begins with 4301 digits does not give 0: \<^verbatim>\<open>int\<close> raises.
\<close>

theorem english_phrase_counterexample:
  "time_to_minutes basic_runtime (PStr (ascii ''5 minutes'')) = Inr 0
   \<and> time_to_minutes basic_runtime (PStr (ascii ''5 minutes'')) \<noteq> Inr 5
   \<and> time_to_minutes basic_runtime (PStr (ascii ''2 hours'')) \<noteq> Inr 120
   \<and> list_all (\<lambda>k. \<not> sublist k (lower_of basic_runtime ph_long_digits)) unit_keywords
   \<and> time_to_minutes basic_runtime (PStr ph_long_digits) \<noteq> Inr 0"
proof -
  have e: "time_to_minutes basic_runtime (PStr (ascii ''5 minutes'')) = Inr 0"
    "time_to_minutes basic_runtime (PStr (ascii ''2 hours'')) = Inr 0"
    by (simp_all add: eval_defs)
  have "lower_of basic_runtime ph_long_digits = replicate 4301 57"
    by (simp add: basic_runtime_def ph_long_digits_def lower_cp_def)
  moreover have "\<not> sublist k (replicate 4301 (57::nat))" if "k \<in> set unit_keywords" for k
  proof
    assume "sublist k (replicate 4301 (57::nat))"
    then have "set k \<subseteq> set (replicate 4301 (57::nat))" by (rule set_mono_sublist)
    then have "set k \<subseteq> {57}" by simp
    with that show False by (auto simp: unit_keywords_def kw_defs)
  qed
  ultimately have u: "list_all (\<lambda>k. \<not> sublist k (lower_of basic_runtime ph_long_digits)) unit_keywords"
    unfolding list_all_iff by simp
  show ?thesis using e u long_digits_raise by simp
qed

section \<open>The sort of the aggregator\<close>

lemma published_key_within:
  "digits_within_limit U (published x) \<Longrightarrow> published_key U x = Inr (recency_ordinal U x) \<and> 0 \<le> recency_ordinal U x"
  using ttm_within_limit [of U "published x"]
  by (auto simp: recency_ordinal_def published_key_def published_def)

lemma published_key_beyond:
  "\<not> digits_within_limit U (published x) \<Longrightarrow> published_key U x = Inl ValueError"
  using ttm_beyond_limit [of U "published x"] by (simp add: published_key_def published_def)

lemma sort_orders_by_time_eq:
  assumes "list_all (\<lambda>x. digits_within_limit U (published x)) orders"
  shows "sort_orders_by_time U orders = sort_key (\<lambda>x. - recency_ordinal U x) orders"
proof -
  have "\<forall>r \<in> set (map (published_key U) orders). \<not> isl r"
    using assms published_key_within [of U] by (auto simp: list_all_iff)
  then have "find isl (map (published_key U) orders) = None" by (simp add: find_None_iff)
  then show ?thesis by (simp add: sort_orders_by_time_def sorted_reverse_def recency_ordinal_def)
qed

lemma sort_orders_fallback:
  assumes "\<not> list_all (\<lambda>x. digits_within_limit U (published x)) orders"
  shows "sort_orders_by_time U orders = orders"
proof -
  obtain x where "x \<in> set orders" "\<not> digits_within_limit U (published x)"
    using assms by (auto simp: list_all_iff)
  then have "\<exists>r \<in> set (map (published_key U) orders). isl r"
    using published_key_beyond [of U x] by force
  then obtain r where "find isl (map (published_key U) orders) = Some r"
    by (cases "find isl (map (published_key U) orders)") (auto simp: find_None_iff)
  then show ?thesis by (simp add: sort_orders_by_time_def sorted_reverse_def)
qed

lemma sort_orders_mset: "mset (sort_orders_by_time U orders) = mset orders"
  by (cases "list_all (\<lambda>x. digits_within_limit U (published x)) orders")
     (simp_all add: sort_orders_by_time_eq sort_orders_fallback)

lemma sort_orders_set: "set (sort_orders_by_time U orders) = set orders"
  using sort_orders_mset [of U orders] by (metis set_mset_mset)

lemma sort_orders_descending:
  assumes "list_all (\<lambda>x. digits_within_limit U (published x)) orders"
  shows "sorted_wrt (\<lambda>a b. a \<ge> b) (map (recency_ordinal U) (sort_orders_by_time U orders))"
proof -
  have "sorted (map (\<lambda>x. - recency_ordinal U x) (sort_key (\<lambda>x. - recency_ordinal U x) orders))"
    by (rule sorted_sort_key)
  then show ?thesis
    by (simp add: sort_orders_by_time_eq [OF assms] sorted_map sorted_wrt_map)
qed

lemma sort_orders_stable:
  assumes "list_all (\<lambda>x. digits_within_limit U (published x)) orders"
  shows "filter (\<lambda>x. recency_ordinal U x = k) (sort_orders_by_time U orders)
   = filter (\<lambda>x. recency_ordinal U x = k) orders"
proof -
  have "filter (\<lambda>x. - recency_ordinal U x = - k) (sort_key (\<lambda>x. - recency_ordinal U x) orders)
      = filter (\<lambda>x. - recency_ordinal U x = - k) orders"
    by (rule sort_key_stable)
  then show ?thesis by (simp add: sort_orders_by_time_eq [OF assms])
qed

lemmas order_defs = order_a_def order_b_def order_c_def order_d_def

lemma ord_a: "published_key basic_runtime order_a = Inr 120"
  by (simp add: published_key_def dict_get_default_def order_defs tab4)
lemma ord_b: "published_key basic_runtime order_b = Inr 0"
  by (simp add: published_key_def dict_get_default_def order_defs tab2)
lemma ord_c: "published_key basic_runtime order_c = Inr 60"
  by (simp add: published_key_def dict_get_default_def order_defs eval_defs ph_60_minut_def)
lemma ord_d: "published_key basic_runtime order_d = Inr 60"
  by (simp add: published_key_def dict_get_default_def order_defs eval_defs ph_1_chas_def)
lemma ord_big: "published_key basic_runtime order_big = Inl ValueError"
  by (simp add: published_key_def dict_get_default_def order_big_def long_minut_raise)

lemma within_iff_key: "digits_within_limit U (published x) \<longleftrightarrow> \<not> isl (published_key U x)"
  using ttm_raises_iff [of U "published x"] by (simp add: published_key_def published_def)

lemma example_sorted:
  "sort_orders_by_time basic_runtime [order_a, order_b, order_c] = [order_a, order_c, order_b]"
proof -
  have "list_all (\<lambda>x. digits_within_limit basic_runtime (published x)) [order_a, order_b, order_c]"
    by (simp add: within_iff_key ord_a ord_b ord_c)
  then show ?thesis
    by (simp add: sort_orders_by_time_eq recency_ordinal_def ord_a ord_b ord_c)
qed

text \<open>
  Claim C1, for the lists on which the key of the sort returns. The key raises on an order
  whose publication text holds a first run of digits beyond the limit of \<^verbatim>\<open>int\<close>, and
  returns on every other order. Where it returns on every order of the list,
  \<^verbatim>\<open>_sort_orders_by_time\<close> returns a permutation of its input in descending order of the
  recency ordinal (oldest first, ordinal 0 last), and the orders of any one ordinal keep
  their relative order. Where it raises on some order, the \<^verbatim>\<open>except\<close> branch returns the
  list as it came. Orders arriving with ordinals 120, 0, 60 leave as 120, 60, 0.
\<close>

theorem sort_descending_stable:
  "(digits_within_limit U (published x) \<longleftrightarrow> \<not> isl (published_key U x))
   \<and> (list_all (\<lambda>x. digits_within_limit U (published x)) orders \<longrightarrow>
        list_all (\<lambda>x. published_key U x = Inr (recency_ordinal U x)) orders
      \<and> mset (sort_orders_by_time U orders) = mset orders
      \<and> sorted_wrt (\<lambda>a b. a \<ge> b) (map (recency_ordinal U) (sort_orders_by_time U orders))
      \<and> filter (\<lambda>x. recency_ordinal U x = k) (sort_orders_by_time U orders)
          = filter (\<lambda>x. recency_ordinal U x = k) orders)
   \<and> (\<not> list_all (\<lambda>x. digits_within_limit U (published x)) orders \<longrightarrow>
        sort_orders_by_time U orders = orders)
   \<and> map (published_key basic_runtime) [order_a, order_b, order_c] = [Inr 120, Inr 0, Inr 60]
   \<and> map (published_key basic_runtime)
         (sort_orders_by_time basic_runtime [order_a, order_b, order_c]) = [Inr 120, Inr 60, Inr 0]"
proof -
  have k: "list_all (\<lambda>x. published_key U x = Inr (recency_ordinal U x)) orders"
    if "list_all (\<lambda>x. digits_within_limit U (published x)) orders"
    using that published_key_within [of U] by (auto simp: list_all_iff)
  show ?thesis
    using within_iff_key [of U x] k sort_orders_mset [of U orders] sort_orders_descending [of U orders]
      sort_orders_stable [of U orders k] sort_orders_fallback [of U orders]
    by (simp add: example_sorted ord_a ord_b ord_c)
qed

theorem sort_descending_stable_witness:
  "list_all (\<lambda>x. digits_within_limit basic_runtime (published x)) [order_c, order_a, order_d]
   \<and> map (published_key basic_runtime) [order_c, order_a, order_d] = [Inr 60, Inr 120, Inr 60]
   \<and> filter (\<lambda>x. recency_ordinal basic_runtime x = 60)
        (sort_orders_by_time basic_runtime [order_c, order_a, order_d]) = [order_c, order_d]
   \<and> sorted_wrt (\<lambda>a b. a \<ge> b) (map (recency_ordinal basic_runtime)
        (sort_orders_by_time basic_runtime [order_c, order_a, order_d]))
   \<and> \<not> list_all (\<lambda>x. digits_within_limit basic_runtime (published x)) [order_b, order_a, order_big]
   \<and> sort_orders_by_time basic_runtime [order_b, order_a, order_big] = [order_b, order_a, order_big]"
proof -
  have w: "list_all (\<lambda>x. digits_within_limit basic_runtime (published x)) [order_c, order_a, order_d]"
    by (simp add: within_iff_key ord_a ord_c ord_d)
  have n: "\<not> list_all (\<lambda>x. digits_within_limit basic_runtime (published x)) [order_b, order_a, order_big]"
    by (simp add: within_iff_key ord_big)
  note T1 = sort_descending_stable [where U = basic_runtime and x = order_a
      and orders = "[order_c, order_a, order_d]" and k = 60]
  note T2 = sort_descending_stable [where U = basic_runtime and x = order_a
      and orders = "[order_b, order_a, order_big]" and k = 60]
  have s: "sorted_wrt (\<lambda>a b. a \<ge> b) (map (recency_ordinal basic_runtime)
        (sort_orders_by_time basic_runtime [order_c, order_a, order_d]))"
    using T1 [THEN conjunct2, THEN conjunct1, THEN mp, OF w] by simp
  have f: "filter (\<lambda>x. recency_ordinal basic_runtime x = 60)
        (sort_orders_by_time basic_runtime [order_c, order_a, order_d])
      = filter (\<lambda>x. recency_ordinal basic_runtime x = 60) [order_c, order_a, order_d]"
    using T1 [THEN conjunct2, THEN conjunct1, THEN mp, OF w] by simp
  have b: "sort_orders_by_time basic_runtime [order_b, order_a, order_big] = [order_b, order_a, order_big]"
    using T2 [THEN conjunct2, THEN conjunct2, THEN conjunct1, THEN mp, OF n] .
  show ?thesis
    using w n s f b by (simp add: recency_ordinal_def ord_a ord_c ord_d)
qed

text \<open>
  A list on which the sort does not order: the key raises on the third order, whose
  publication text begins with 4301 digits, so the list is returned as it came, with the
  order of ordinal 0 before the order of ordinal 120.
\<close>

theorem sort_fallback_counterexample:
  "map (published_key basic_runtime) [order_b, order_a, order_big] = [Inr 0, Inr 120, Inl ValueError]
   \<and> sort_orders_by_time basic_runtime [order_b, order_a, order_big] = [order_b, order_a, order_big]
   \<and> recency_ordinal basic_runtime order_b = 0
   \<and> recency_ordinal basic_runtime order_a = 120
   \<and> \<not> sorted_wrt (\<lambda>a b. a \<ge> b) (map (recency_ordinal basic_runtime)
        (sort_orders_by_time basic_runtime [order_b, order_a, order_big]))"
proof -
  have "\<not> list_all (\<lambda>x. digits_within_limit basic_runtime (published x)) [order_b, order_a, order_big]"
    by (simp add: within_iff_key ord_big)
  then have "sort_orders_by_time basic_runtime [order_b, order_a, order_big] = [order_b, order_a, order_big]"
    by (rule sort_orders_fallback)
  then show ?thesis by (simp add: recency_ordinal_def ord_a ord_b ord_big)
qed

section \<open>The filters keep the first occurrence of each new identity\<close>

lemma fresh_ids_disjoint: "ids_of (fresh S xs) \<inter> S = {}"
  by (induction xs arbitrary: S) (auto simp: ids_of_def)

lemma fresh_truthy: "x \<in> set (fresh S xs) \<Longrightarrow> truthy (order_id x)"
  by (induction xs arbitrary: S) (auto split: if_splits)

lemma fresh_distinct: "distinct (map order_id (fresh S xs))"
proof (induction xs arbitrary: S)
  case Nil
  show ?case by simp
next
  case (Cons x xs)
  have "order_id x \<notin> ids_of (fresh (insert (order_id x) S) xs)"
    using fresh_ids_disjoint [of "insert (order_id x) S" xs] by auto
  then show ?case using Cons by (simp add: ids_of_def)
qed

lemma fresh_subseq: "subseq (fresh S xs) xs"
  by (induction xs arbitrary: S) auto

lemma fresh_not_in: "x \<in> set (fresh S xs) \<Longrightarrow> order_id x \<notin> S"
  using fresh_ids_disjoint [of S xs] by (auto simp: ids_of_def)

lemma fresh_first:
  "x \<in> set (fresh S xs) \<Longrightarrow> find (\<lambda>y. order_id y = order_id x) xs = Some x"
proof (induction xs arbitrary: S)
  case Nil
  then show ?case by simp
next
  case (Cons y ys)
  show ?case
  proof (cases "truthy (order_id y) \<and> order_id y \<notin> S")
    case True
    then have "x = y \<or> x \<in> set (fresh (insert (order_id y) S) ys)" using Cons.prems by simp
    then show ?thesis
    proof
      assume "x = y" then show ?thesis by simp
    next
      assume in_rest: "x \<in> set (fresh (insert (order_id y) S) ys)"
      then have "order_id x \<noteq> order_id y" using fresh_not_in by fastforce
      then show ?thesis using Cons.IH [OF in_rest] by simp
    qed
  next
    case False
    then have in_rest: "x \<in> set (fresh S ys)" using Cons.prems by auto
    have "truthy (order_id x)" "order_id x \<notin> S"
      using in_rest fresh_truthy fresh_not_in by blast+
    then have "order_id x \<noteq> order_id y" using False by auto
    then show ?thesis using Cons.IH [OF in_rest] by simp
  qed
qed

lemma fresh_complete:
  "y \<in> set xs \<Longrightarrow> truthy (order_id y) \<Longrightarrow> order_id y \<notin> S \<Longrightarrow> order_id y \<in> ids_of (fresh S xs)"
proof (induction xs arbitrary: S)
  case Nil
  then show ?case by simp
next
  case (Cons x xs)
  show ?case
  proof (cases "order_id x = order_id y")
    case True
    then show ?thesis using Cons.prems by (simp add: ids_of_def)
  next
    case False
    then have y: "y \<in> set xs" using Cons.prems by auto
    have "order_id y \<in> ids_of (fresh (insert (order_id x) S) xs)"
      using Cons.IH [OF y Cons.prems(2)] False Cons.prems(3) by simp
    moreover have "order_id y \<in> ids_of (fresh S xs)"
      using Cons.IH [OF y Cons.prems(2,3)] .
    ultimately show ?thesis by (simp add: ids_of_def)
  qed
qed

lemma new_orders_loop_fresh:
  "new_orders_loop xs acc S = (acc @ fresh S xs, S \<union> ids_of (fresh S xs))"
  by (induction xs arbitrary: acc S) (auto simp: ids_of_def order_id_def Let_def)

lemma filter_unique_loop_fresh:
  "seen \<subseteq> sent \<Longrightarrow>
   filter_unique_loop xs acc seen sent = (acc @ fresh sent xs, sent \<union> ids_of (fresh sent xs))"
proof (induction xs arbitrary: acc seen sent)
  case Nil
  show ?case by (simp add: ids_of_def)
next
  case (Cons x xs)
  show ?case
  proof (cases "truthy (order_id x) \<and> order_id x \<notin> sent")
    case True
    then have ns: "order_id x \<notin> seen" using Cons.prems by auto
    have sub: "insert (order_id x) seen \<subseteq> insert (order_id x) sent" using Cons.prems by auto
    show ?thesis
      using True ns Cons.IH [OF sub] by (auto simp: ids_of_def order_id_def [symmetric] Let_def)
  next
    case False
    then show ?thesis
      using Cons.IH [OF Cons.prems] by (auto simp: order_id_def [symmetric] Let_def)
  qed
qed

lemma filter_unique_orders_fresh:
  "filter_unique_orders sent orders = (fresh sent orders, sent \<union> ids_of (fresh sent orders))"
  by (simp add: filter_unique_orders_def filter_unique_loop_fresh)

lemma new_orders_loop_step:
  assumes "new_orders_loop xs [] S = (out, S')"
  shows "S' = S \<union> ids_of out \<and> ids_of out \<inter> S = {}"
  using assms fresh_ids_disjoint [of S xs] by (auto simp: new_orders_loop_fresh)

lemma fs_get_new_orders_raised:
  assumes "fst (parse_orders U server t pages) = Inl e"
  shows "fs_get_new_orders U S server t pages = (Inl e, S)"
  using assms by (simp add: fs_get_new_orders_def)

lemma fs_get_new_orders_returned:
  assumes "fst (parse_orders U server t pages) = Inr xs"
  shows "fs_get_new_orders U S server t pages = (Inr (fresh S xs), S \<union> ids_of (fresh S xs))"
  using assms by (simp add: fs_get_new_orders_def new_orders_loop_fresh)

lemma fs_step:
  assumes "fs_get_new_orders U S server t pages = (out, S')"
  shows "S' = S \<union> ids_of (returned out) \<and> ids_of (returned out) \<inter> S = {}"
proof (cases "fst (parse_orders U server t pages)")
  case (Inl e)
  have "out = Inl e" "S' = S"
    using assms fs_get_new_orders_raised [OF Inl, of S] by simp_all
  then show ?thesis by (simp add: returned_def ids_of_def)
next
  case (Inr xs)
  have "out = Inr (fresh S xs)" "S' = S \<union> ids_of (fresh S xs)"
    using assms fs_get_new_orders_returned [OF Inr, of S] by simp_all
  then show ?thesis using fresh_ids_disjoint [of S xs] by (simp add: returned_def)
qed

lemma fl_step:
  assumes "fl_get_new_orders S index = (out, S')"
  shows "S' = S \<union> ids_of out \<and> ids_of out \<inter> S = {}"
  using assms unfolding fl_get_new_orders_def by (rule new_orders_loop_step)

lemma sort_orders_single: "sort_orders_by_time U [x] = [x]"
proof (cases "list_all (\<lambda>x. digits_within_limit U (published x)) [x]")
  case True
  then show ?thesis by (simp add: sort_orders_by_time_eq)
next
  case False
  then show ?thesis by (rule sort_orders_fallback)
qed

lemma ids_of_sort: "ids_of (sort_orders_by_time U xs) = ids_of xs"
  by (simp add: ids_of_def sort_orders_set)

lemma get_new_orders_unfold:
  assumes a: "fs_get_new_orders U (fs_sent st) (fs_server inp) (fs_total_time inp) pages = (r, fs')"
    and b: "fl_get_new_orders (fl_sent st) (fl_index inp) = (b, fl')"
  shows "get_new_orders U pages st inp =
     (sort_orders_by_time U (fresh (agg_sent st) (returned r @ b)),
      \<lparr> fs_sent = fs', fl_sent = fl',
        agg_sent = agg_sent st \<union> ids_of (fresh (agg_sent st) (returned r @ b)) \<rparr>)"
  using a b by (simp add: get_new_orders_def filter_unique_orders_fresh Let_def returned_def)

lemma distinct_one_occurrence:
  "distinct (map f xs) \<Longrightarrow> x \<in> set xs \<Longrightarrow> length (filter (\<lambda>y. f y = f x) xs) = 1"
proof (induction xs)
  case Nil
  then show ?case by simp
next
  case (Cons a xs)
  show ?case
  proof (cases "f a = f x")
    case True
    then have "\<forall>y \<in> set xs. f y \<noteq> f x" using Cons.prems(1) by (fastforce intro: rev_image_eqI)
    then have "filter (\<lambda>y. f y = f x) xs = []" by (simp add: filter_empty_conv)
    then show ?thesis using True by simp
  next
    case False
    then have "x \<in> set xs" using Cons.prems(2) by auto
    then show ?thesis using Cons False by simp
  qed
qed

lemma two_sources_one_record:
  assumes "truthy X" "X \<notin> sent" "X \<in> ids_of a" "X \<in> ids_of b"
  shows "length (filter (\<lambda>x. order_id x = X) (fst (filter_unique_orders sent (a @ b)))) = 1"
proof -
  obtain y where y: "y \<in> set (a @ b)" "order_id y = X" using assms(3) by (auto simp: ids_of_def)
  have "X \<in> ids_of (fresh sent (a @ b))"
    using fresh_complete [OF y(1)] assms(1,2) y(2) by simp
  then obtain x where x: "x \<in> set (fresh sent (a @ b))" "order_id x = X"
    by (auto simp: ids_of_def)
  have d: "distinct (map order_id (fresh sent (a @ b)))" by (rule fresh_distinct)
  show ?thesis
    using distinct_one_occurrence [OF d x(1)] x(2)
    by (simp add: filter_unique_orders_fresh)
qed

lemma adapter_new_truthy:
  assumes "new_orders_loop xs [] S = (out, S')" "X \<in> ids_of out"
  shows "truthy X \<and> X \<notin> S"
  using assms fresh_truthy [of _ S xs] fresh_not_in [of _ S xs]
  by (auto simp: new_orders_loop_fresh ids_of_def)

lemma cross_source_invariant:
  assumes "agg_sent st \<subseteq> fs_sent st \<union> fl_sent st"
  shows "agg_sent (snd (get_new_orders U pages st inp))
         \<subseteq> fs_sent (snd (get_new_orders U pages st inp))
           \<union> fl_sent (snd (get_new_orders U pages st inp))"
proof -
  obtain r fs' where r: "fs_get_new_orders U (fs_sent st) (fs_server inp) (fs_total_time inp) pages = (r, fs')"
    by (cases "fs_get_new_orders U (fs_sent st) (fs_server inp) (fs_total_time inp) pages")
  define a where "a = returned r"
  obtain b fl' where b: "fl_get_new_orders (fl_sent st) (fl_index inp) = (b, fl')"
    by (cases "fl_get_new_orders (fl_sent st) (fl_index inp)")
  have "set (fresh (agg_sent st) (a @ b)) \<subseteq> set (a @ b)"
    using fresh_subseq by (metis subseq_order.dual_order.refl set_nths_subset subseq_conv_nths)
  then have "ids_of (fresh (agg_sent st) (a @ b)) \<subseteq> ids_of a \<union> ids_of b"
    by (auto simp: ids_of_def)
  then show ?thesis
    using assms fs_step [OF r] fl_step [OF b]
    unfolding get_new_orders_unfold [OF r b] a_def by auto
qed

lemma same_id_from_both_adapters:
  assumes inv: "agg_sent st \<subseteq> fs_sent st \<union> fl_sent st"
    and x1: "X \<in> ids_of (returned (fst (fs_get_new_orders U (fs_sent st) (fs_server inp)
                (fs_total_time inp) pages)))"
    and x2: "X \<in> ids_of (fst (fl_get_new_orders (fl_sent st) (fl_index inp)))"
  shows "length (filter (\<lambda>x. order_id x = X) (fst (get_new_orders U pages st inp))) = 1"
proof -
  obtain r fs' where r: "fs_get_new_orders U (fs_sent st) (fs_server inp) (fs_total_time inp) pages = (r, fs')"
    by (cases "fs_get_new_orders U (fs_sent st) (fs_server inp) (fs_total_time inp) pages")
  define a where "a = returned r"
  obtain b fl' where b: "fl_get_new_orders (fl_sent st) (fl_index inp) = (b, fl')"
    by (cases "fl_get_new_orders (fl_sent st) (fl_index inp)")
  have xa: "X \<in> ids_of a" and xb: "X \<in> ids_of b" using x1 x2 r b by (simp_all add: a_def)
  have "truthy X \<and> X \<notin> fs_sent st"
  proof (cases "fst (parse_orders U (fs_server inp) (fs_total_time inp) pages)")
    case (Inl e)
    have "r = Inl e"
      using r fs_get_new_orders_raised [OF Inl, of "fs_sent st"] by simp
    then show ?thesis using xa by (simp add: a_def returned_def ids_of_def)
  next
    case (Inr xs)
    have "r = Inr (fresh (fs_sent st) xs)"
      using r fs_get_new_orders_returned [OF Inr, of "fs_sent st"] by simp
    then have "a = fresh (fs_sent st) xs" by (simp add: a_def returned_def)
    then show ?thesis
      using xa fresh_truthy [of _ "fs_sent st" xs] fresh_not_in [of _ "fs_sent st" xs]
      by (auto simp: ids_of_def)
  qed
  moreover have "truthy X \<and> X \<notin> fl_sent st"
    using b xb unfolding fl_get_new_orders_def by (rule adapter_new_truthy)
  ultimately have t: "truthy X" and n: "X \<notin> agg_sent st" using inv by auto
  have one: "length (filter (\<lambda>x. order_id x = X) (fresh (agg_sent st) (a @ b))) = 1"
    using two_sources_one_record [OF t n xa xb] by (simp add: filter_unique_orders_fresh)
  have "mset (filter (\<lambda>x. order_id x = X) (sort_orders_by_time U (fresh (agg_sent st) (a @ b))))
      = mset (filter (\<lambda>x. order_id x = X) (fresh (agg_sent st) (a @ b)))"
    by (simp add: sort_orders_mset)
  then have "length (filter (\<lambda>x. order_id x = X) (sort_orders_by_time U (fresh (agg_sent st) (a @ b))))
      = length (filter (\<lambda>x. order_id x = X) (fresh (agg_sent st) (a @ b)))"
    by (rule mset_eq_length)
  then show ?thesis using one unfolding get_new_orders_unfold [OF r b] a_def by simp
qed

text \<open>
  Claim C2. \<^verbatim>\<open>_filter_unique_orders\<close> returns a subsequence of the concatenated list in
  which no identity occurs twice; every record it keeps has an identity that is not in
  the cross-source set and is the first record of the list with that identity; every
  usable identity outside the cross-source set is kept once, and the set grows by exactly
  the identities kept. Hence, when two lists each hold a record with a new identity X,
  the output for their concatenation holds exactly one record with identity X. In the
  running system the cross-source set stays inside the union of the adapters' sets (it
  does so from the empty start, and every cycle keeps it so); then, whenever both
  adapters return a record with identity X in a cycle, the aggregator hands over exactly
  one record with identity X.
\<close>

theorem aggregator_dedup_first_wins:
  "distinct (map order_id (fst (filter_unique_orders sent orders)))
   \<and> subseq (fst (filter_unique_orders sent orders)) orders
   \<and> (\<forall>x \<in> set (fst (filter_unique_orders sent orders)).
         truthy (order_id x) \<and> order_id x \<notin> sent
         \<and> find (\<lambda>y. order_id y = order_id x) orders = Some x)
   \<and> (\<forall>y \<in> set orders. truthy (order_id y) \<and> order_id y \<notin> sent
         \<longrightarrow> order_id y \<in> ids_of (fst (filter_unique_orders sent orders)))
   \<and> snd (filter_unique_orders sent orders) = sent \<union> ids_of (fst (filter_unique_orders sent orders))
   \<and> (truthy X \<and> X \<notin> sent \<and> X \<in> ids_of a \<and> X \<in> ids_of b
         \<longrightarrow> length (filter (\<lambda>x. order_id x = X) (fst (filter_unique_orders sent (a @ b)))) = 1)
   \<and> (agg_sent st \<subseteq> fs_sent st \<union> fl_sent st
         \<longrightarrow> agg_sent (snd (get_new_orders U pages st inp))
             \<subseteq> fs_sent (snd (get_new_orders U pages st inp))
               \<union> fl_sent (snd (get_new_orders U pages st inp)))
   \<and> (agg_sent st \<subseteq> fs_sent st \<union> fl_sent st
        \<and> X \<in> ids_of (returned (fst (fs_get_new_orders U (fs_sent st) (fs_server inp)
                (fs_total_time inp) pages)))
        \<and> X \<in> ids_of (fst (fl_get_new_orders (fl_sent st) (fl_index inp)))
         \<longrightarrow> length (filter (\<lambda>x. order_id x = X) (fst (get_new_orders U pages st inp))) = 1)"
proof -
  have filter_part:
    "distinct (map order_id (fst (filter_unique_orders sent orders)))
     \<and> subseq (fst (filter_unique_orders sent orders)) orders
     \<and> (\<forall>x \<in> set (fst (filter_unique_orders sent orders)).
           truthy (order_id x) \<and> order_id x \<notin> sent
           \<and> find (\<lambda>y. order_id y = order_id x) orders = Some x)
     \<and> (\<forall>y \<in> set orders. truthy (order_id y) \<and> order_id y \<notin> sent
           \<longrightarrow> order_id y \<in> ids_of (fst (filter_unique_orders sent orders)))
     \<and> snd (filter_unique_orders sent orders) = sent \<union> ids_of (fst (filter_unique_orders sent orders))
     \<and> (truthy X \<and> X \<notin> sent \<and> X \<in> ids_of a \<and> X \<in> ids_of b
           \<longrightarrow> length (filter (\<lambda>x. order_id x = X) (fst (filter_unique_orders sent (a @ b)))) = 1)"
    using fresh_distinct [of sent orders] fresh_subseq [of sent orders] fresh_truthy [of _ sent orders]
      fresh_not_in [of _ sent orders] fresh_first [of _ sent orders] fresh_complete [of _ orders sent]
      two_sources_one_record [of X sent a b]
    by (auto simp: filter_unique_orders_fresh)
  show ?thesis
    using filter_part cross_source_invariant [of st U pages inp]
      same_id_from_both_adapters [of st X U inp pages]
    by blast
qed

lemmas sample_defs = order_x1_def order_x2_def order_no_id_def order_none_id_def order_empty_id_def

theorem aggregator_dedup_first_wins_witness:
  "truthy (PStr (ascii ''X'')) \<and> PStr (ascii ''X'') \<in> ids_of [order_x1] \<and> PStr (ascii ''X'') \<in> ids_of [order_x2]
   \<and> length (filter (\<lambda>x. order_id x = PStr (ascii ''X''))
        (fst (filter_unique_orders {} ([order_x1] @ [order_x2])))) = 1
   \<and> fst (filter_unique_orders {} ([order_x1] @ [order_x2])) = [order_x1]
   \<and> fst (fs_get_new_orders basic_runtime {} server_x1 1 1) = Inr [order_x1]
   \<and> fst (fl_get_new_orders {} (Some [Some order_x2])) = [order_x2]
   \<and> length (filter (\<lambda>x. order_id x = PStr (ascii ''X''))
        (fst (get_new_orders basic_runtime 1 \<lparr> fs_sent = {}, fl_sent = {}, agg_sent = {} \<rparr>
                \<lparr> fs_server = server_x1, fs_total_time = 1, fl_index = Some [Some order_x2] \<rparr>))) = 1"
proof -
  have h: "truthy (PStr (ascii ''X''))" "PStr (ascii ''X'') \<notin> {}"
    "PStr (ascii ''X'') \<in> ids_of [order_x1]" "PStr (ascii ''X'') \<in> ids_of [order_x2]"
    by (simp_all add: ids_of_def order_id_def dict_get_def sample_defs ascii_def)
  have e: "fst (filter_unique_orders {} ([order_x1] @ [order_x2])) = [order_x1]"
    by (simp add: filter_unique_orders_def order_id_def dict_get_def sample_defs ascii_def Let_def)
  have s: "sort_orders_by_time basic_runtime [order_x1] = [order_x1]"
    by (rule sort_orders_single)
  have p: "fst (parse_orders basic_runtime server_x1 1 1) = Inr [order_x1]"
    by (simp add: parse_orders_def server_x1_def s)
  have x1: "dict_get order_x1 ''id'' = PStr (ascii ''X'')" "dict_get order_x2 ''id'' = PStr (ascii ''X'')"
    "order_x2 \<noteq> []"
    by (simp_all add: dict_get_def sample_defs)
  have fs: "fst (fs_get_new_orders basic_runtime {} server_x1 1 1) = Inr [order_x1]"
    using h(1) by (simp add: fs_get_new_orders_def p x1 Let_def)
  have fl: "fst (fl_get_new_orders {} (Some [Some order_x2])) = [order_x2]"
    using h(1) by (simp add: fl_get_new_orders_def fl_parse_page_def x1 Let_def)
  let ?st = "\<lparr> fs_sent = {}, fl_sent = {}, agg_sent = {} \<rparr>"
  let ?inp = "\<lparr> fs_server = server_x1, fs_total_time = 1, fl_index = Some [Some order_x2] \<rparr>"
  have g: "agg_sent ?st \<subseteq> fs_sent ?st \<union> fl_sent ?st
      \<and> PStr (ascii ''X'') \<in> ids_of (returned (fst (fs_get_new_orders basic_runtime (fs_sent ?st)
            (fs_server ?inp) (fs_total_time ?inp) 1)))
      \<and> PStr (ascii ''X'') \<in> ids_of (fst (fl_get_new_orders (fl_sent ?st) (fl_index ?inp)))"
    using h(3,4) by (simp add: fs fl returned_def)
  note T = aggregator_dedup_first_wins [where sent = "{}" and orders = "[order_x1, order_x2]"
      and X = "PStr (ascii ''X'')" and a = "[order_x1]" and b = "[order_x2]"
      and st = ?st and inp = ?inp and U = basic_runtime and pages = 1]
  have c1: "length (filter (\<lambda>x. order_id x = PStr (ascii ''X''))
        (fst (filter_unique_orders {} ([order_x1] @ [order_x2])))) = 1"
    using T h by blast
  have c2: "length (filter (\<lambda>x. order_id x = PStr (ascii ''X''))
        (fst (get_new_orders basic_runtime 1 ?st ?inp))) = 1"
    using T g by blast
  show ?thesis using h e fs fl c1 c2 by blast
qed

section \<open>Seen sets: what was returned once is not returned again\<close>

lemma length_run_with: "length (run_with step s xs) = length xs"
  by (induction xs arbitrary: s) (auto split: prod.splits)

lemma run_with_unseen:
  assumes step: "\<And>s x out s'. step s x = (out, s') \<Longrightarrow>
                   seen s' = seen s \<union> ids out \<and> ids out \<inter> seen s = {}"
  shows "out \<in> set (run_with step s xs) \<Longrightarrow> ids out \<inter> seen s = {}"
proof (induction xs arbitrary: s)
  case Nil
  then show ?case by simp
next
  case (Cons x xs)
  obtain o1 s1 where s1: "step s x = (o1, s1)" by (cases "step s x")
  from Cons.prems s1 have "out = o1 \<or> out \<in> set (run_with step s1 xs)" by simp
  then show ?case
  proof
    assume "out = o1" then show ?thesis using step [OF s1] by simp
  next
    assume "out \<in> set (run_with step s1 xs)"
    then have "ids out \<inter> seen s1 = {}" by (rule Cons.IH)
    then show ?thesis using step [OF s1] by auto
  qed
qed

lemma run_with_disjoint:
  assumes step: "\<And>s x out s'. step s x = (out, s') \<Longrightarrow>
                   seen s' = seen s \<union> ids out \<and> ids out \<inter> seen s = {}"
  shows "i < j \<Longrightarrow> j < length xs \<Longrightarrow>
         ids (run_with step s xs ! i) \<inter> ids (run_with step s xs ! j) = {}"
proof (induction xs arbitrary: s i j)
  case Nil
  then show ?case by simp
next
  case (Cons x xs)
  obtain o1 s1 where s1: "step s x = (o1, s1)" by (cases "step s x")
  obtain j' where j': "j = Suc j'" using Cons.prems(1) by (cases j) auto
  show ?case
  proof (cases i)
    case 0
    have "run_with step s1 xs ! j' \<in> set (run_with step s1 xs)"
      using Cons.prems(2) j' by (simp add: length_run_with)
    then have "ids (run_with step s1 xs ! j') \<inter> seen s1 = {}"
      using step by (intro run_with_unseen [where step = step and seen = seen and ids = ids]) auto
    then show ?thesis using 0 j' s1 step [OF s1] by auto
  next
    case (Suc i')
    then have "ids (run_with step s1 xs ! i') \<inter> ids (run_with step s1 xs ! j') = {}"
      using Cons.prems j' Cons.IH [of i' j' s1] by simp
    then show ?thesis using Suc j' s1 by simp
  qed
qed

lemma fresh_subset: "set (fresh S xs) \<subseteq> set xs"
  by (induction xs arbitrary: S) auto

lemma fresh_marks:
  "y \<in> set xs \<Longrightarrow> truthy (order_id y) \<Longrightarrow> order_id y \<in> S \<union> ids_of (fresh S xs)"
  using fresh_complete [of y xs S] by blast

lemma get_new_orders_step:
  assumes "get_new_orders U pages st inp = (out, st')"
  shows "agg_sent st' = agg_sent st \<union> ids_of out \<and> ids_of out \<inter> agg_sent st = {}"
proof -
  obtain r fs' where r: "fs_get_new_orders U (fs_sent st) (fs_server inp) (fs_total_time inp) pages = (r, fs')"
    by (cases "fs_get_new_orders U (fs_sent st) (fs_server inp) (fs_total_time inp) pages")
  obtain b fl' where b: "fl_get_new_orders (fl_sent st) (fl_index inp) = (b, fl')"
    by (cases "fl_get_new_orders (fl_sent st) (fl_index inp)")
  show ?thesis
    using assms fresh_ids_disjoint [of "agg_sent st" "returned r @ b"]
    unfolding get_new_orders_unfold [OF r b] by (auto simp: ids_of_sort)
qed

lemma get_new_orders_adapters:
  "fs_sent (snd (get_new_orders U pages st inp))
     = snd (fs_get_new_orders U (fs_sent st) (fs_server inp) (fs_total_time inp) pages)
   \<and> fl_sent (snd (get_new_orders U pages st inp))
     = snd (fl_get_new_orders (fl_sent st) (fl_index inp))"
proof -
  obtain r fs' where r: "fs_get_new_orders U (fs_sent st) (fs_server inp) (fs_total_time inp) pages = (r, fs')"
    by (cases "fs_get_new_orders U (fs_sent st) (fs_server inp) (fs_total_time inp) pages")
  obtain b fl' where b: "fl_get_new_orders (fl_sent st) (fl_index inp) = (b, fl')"
    by (cases "fl_get_new_orders (fl_sent st) (fl_index inp)")
  show ?thesis unfolding get_new_orders_unfold [OF r b] using r b by simp
qed

lemma get_new_orders_adapters_grow:
  "fs_sent st \<subseteq> fs_sent (snd (get_new_orders U pages st inp))
   \<and> fl_sent st \<subseteq> fl_sent (snd (get_new_orders U pages st inp))"
proof -
  obtain r fs' where r: "fs_get_new_orders U (fs_sent st) (fs_server inp) (fs_total_time inp) pages = (r, fs')"
    by (cases "fs_get_new_orders U (fs_sent st) (fs_server inp) (fs_total_time inp) pages")
  obtain b fl' where b: "fl_get_new_orders (fl_sent st) (fl_index inp) = (b, fl')"
    by (cases "fl_get_new_orders (fl_sent st) (fl_index inp)")
  show ?thesis
    using fs_step [OF r] fl_step [OF b]
    unfolding get_new_orders_unfold [OF r b] by auto
qed

lemma get_new_orders_ids:
  "ids_of (fst (get_new_orders U pages st inp))
   = ids_of (fresh (agg_sent st)
       (returned (fst (fs_get_new_orders U (fs_sent st) (fs_server inp) (fs_total_time inp) pages))
        @ fst (fl_get_new_orders (fl_sent st) (fl_index inp))))"
proof -
  obtain r fs' where r: "fs_get_new_orders U (fs_sent st) (fs_server inp) (fs_total_time inp) pages = (r, fs')"
    by (cases "fs_get_new_orders U (fs_sent st) (fs_server inp) (fs_total_time inp) pages")
  obtain b fl' where b: "fl_get_new_orders (fl_sent st) (fl_index inp) = (b, fl')"
    by (cases "fl_get_new_orders (fl_sent st) (fl_index inp)")
  show ?thesis unfolding get_new_orders_unfold [OF r b] using r b by (simp add: ids_of_sort)
qed

lemma fl_get_new_orders_fresh:
  "fl_get_new_orders sent index
   = (fresh sent (fl_parse_page index 5), sent \<union> ids_of (fresh sent (fl_parse_page index 5)))"
  by (simp add: fl_get_new_orders_def new_orders_loop_fresh)

text \<open>
  Claim C4, for each object and the set it owns. In any sequence of calls on one object,
  two different calls never return records with a common identity, and no call returns an
  identity that was in the set when the sequence began: this holds for \<^verbatim>\<open>get_new_orders\<close>
  of the FreelanceSpace adapter, of the FL.ru adapter, and of the aggregator (whose set is
  the cross-source one). Every call returns only identities outside the owning set and
  leaves the set enlarged by exactly the identities it returned. The call is tied to what
  the query extracted: every extracted record with a usable identity has its identity in
  the set after the call, every extracted usable identity that was not in the set before
  is among the identities returned, and the records returned are extracted ones. For the
  FreelanceSpace adapter the extracted records are those \<^verbatim>\<open>parse_orders\<close> returns (when it
  raises, nothing is returned and the set is left as it was); for the FL.ru adapter those
  of \<^verbatim>\<open>_parse_page\<close>; for the aggregator those the two adapters returned to it. A call of
  the aggregator leaves each adapter's set as the adapter's own call left it, so those
  sets grow also.
\<close>

theorem seen_ids_never_returned_again:
  "(i < j \<and> j < length calls \<longrightarrow>
      ids_of (returned (run_with (\<lambda>sent c. fs_get_new_orders U sent (fst c) (snd c) pages) sent0 calls ! i))
      \<inter> ids_of (returned (run_with (\<lambda>sent c. fs_get_new_orders U sent (fst c) (snd c) pages) sent0 calls ! j)) = {})
   \<and> (i < j \<and> j < length indexes \<longrightarrow>
      ids_of (run_with fl_get_new_orders sent0 indexes ! i)
      \<inter> ids_of (run_with fl_get_new_orders sent0 indexes ! j) = {})
   \<and> (i < j \<and> j < length inputs \<longrightarrow>
      ids_of (run_with (get_new_orders U pages) st0 inputs ! i)
      \<inter> ids_of (run_with (get_new_orders U pages) st0 inputs ! j) = {})
   \<and> (\<forall>out \<in> set (run_with (\<lambda>sent c. fs_get_new_orders U sent (fst c) (snd c) pages) sent0 calls).
        ids_of (returned out) \<inter> sent0 = {})
   \<and> (\<forall>out \<in> set (run_with fl_get_new_orders sent0 indexes). ids_of out \<inter> sent0 = {})
   \<and> (\<forall>out \<in> set (run_with (get_new_orders U pages) st0 inputs). ids_of out \<inter> agg_sent st0 = {})
   \<and> ids_of (returned (fst (fs_get_new_orders U sent server t pages))) \<inter> sent = {}
   \<and> snd (fs_get_new_orders U sent server t pages)
       = sent \<union> ids_of (returned (fst (fs_get_new_orders U sent server t pages)))
   \<and> (fst (parse_orders U server t pages) = Inr found \<longrightarrow>
        (\<forall>y \<in> set found. truthy (order_id y) \<longrightarrow>
            order_id y \<in> snd (fs_get_new_orders U sent server t pages))
      \<and> (\<forall>y \<in> set found. truthy (order_id y) \<and> order_id y \<notin> sent \<longrightarrow>
            order_id y \<in> ids_of (returned (fst (fs_get_new_orders U sent server t pages))))
      \<and> set (returned (fst (fs_get_new_orders U sent server t pages))) \<subseteq> set found)
   \<and> (fst (parse_orders U server t pages) = Inl e \<longrightarrow>
        fs_get_new_orders U sent server t pages = (Inl e, sent))
   \<and> ids_of (fst (fl_get_new_orders sent index)) \<inter> sent = {}
   \<and> snd (fl_get_new_orders sent index) = sent \<union> ids_of (fst (fl_get_new_orders sent index))
   \<and> (\<forall>y \<in> set (fl_parse_page index 5). truthy (order_id y) \<longrightarrow>
        order_id y \<in> snd (fl_get_new_orders sent index))
   \<and> (\<forall>y \<in> set (fl_parse_page index 5). truthy (order_id y) \<and> order_id y \<notin> sent \<longrightarrow>
        order_id y \<in> ids_of (fst (fl_get_new_orders sent index)))
   \<and> set (fst (fl_get_new_orders sent index)) \<subseteq> set (fl_parse_page index 5)
   \<and> ids_of (fst (get_new_orders U pages st inp)) \<inter> agg_sent st = {}
   \<and> agg_sent (snd (get_new_orders U pages st inp))
       = agg_sent st \<union> ids_of (fst (get_new_orders U pages st inp))
   \<and> (\<forall>y \<in> set (returned (fst (fs_get_new_orders U (fs_sent st) (fs_server inp) (fs_total_time inp) pages))
                 @ fst (fl_get_new_orders (fl_sent st) (fl_index inp))).
        truthy (order_id y) \<longrightarrow> order_id y \<in> agg_sent (snd (get_new_orders U pages st inp)))
   \<and> (\<forall>y \<in> set (returned (fst (fs_get_new_orders U (fs_sent st) (fs_server inp) (fs_total_time inp) pages))
                 @ fst (fl_get_new_orders (fl_sent st) (fl_index inp))).
        truthy (order_id y) \<and> order_id y \<notin> agg_sent st \<longrightarrow>
        order_id y \<in> ids_of (fst (get_new_orders U pages st inp)))
   \<and> set (fst (get_new_orders U pages st inp))
        \<subseteq> set (returned (fst (fs_get_new_orders U (fs_sent st) (fs_server inp) (fs_total_time inp) pages))
                 @ fst (fl_get_new_orders (fl_sent st) (fl_index inp)))
   \<and> fs_sent (snd (get_new_orders U pages st inp))
       = snd (fs_get_new_orders U (fs_sent st) (fs_server inp) (fs_total_time inp) pages)
   \<and> fl_sent (snd (get_new_orders U pages st inp))
       = snd (fl_get_new_orders (fl_sent st) (fl_index inp))
   \<and> fs_sent st \<subseteq> fs_sent (snd (get_new_orders U pages st inp))
   \<and> fl_sent st \<subseteq> fl_sent (snd (get_new_orders U pages st inp))"
proof -
  let ?fs = "\<lambda>sent c. fs_get_new_orders U sent (fst c) (snd c) pages"
  have fs_st: "\<And>s x out s'. ?fs s x = (out, s') \<Longrightarrow>
      s' = s \<union> ids_of (returned out) \<and> ids_of (returned out) \<inter> s = {}"
    by (rule fs_step)
  have r1: "i < j \<and> j < length calls \<longrightarrow>
      ids_of (returned (run_with ?fs sent0 calls ! i))
      \<inter> ids_of (returned (run_with ?fs sent0 calls ! j)) = {}"
  proof (intro impI, elim conjE)
    assume "i < j" "j < length calls"
    then show "ids_of (returned (run_with ?fs sent0 calls ! i))
      \<inter> ids_of (returned (run_with ?fs sent0 calls ! j)) = {}"
      using fs_st
      by (intro run_with_disjoint [where seen = "\<lambda>s. s" and ids = "\<lambda>r. ids_of (returned r)"]) auto
  qed
  have r2: "i < j \<and> j < length indexes \<longrightarrow>
      ids_of (run_with fl_get_new_orders sent0 indexes ! i)
      \<inter> ids_of (run_with fl_get_new_orders sent0 indexes ! j) = {}"
  proof (intro impI, elim conjE)
    assume "i < j" "j < length indexes"
    then show "ids_of (run_with fl_get_new_orders sent0 indexes ! i)
      \<inter> ids_of (run_with fl_get_new_orders sent0 indexes ! j) = {}"
      using fl_step by (intro run_with_disjoint [where seen = "\<lambda>s. s" and ids = ids_of]) auto
  qed
  have r3: "i < j \<and> j < length inputs \<longrightarrow>
      ids_of (run_with (get_new_orders U pages) st0 inputs ! i)
      \<inter> ids_of (run_with (get_new_orders U pages) st0 inputs ! j) = {}"
  proof (intro impI, elim conjE)
    assume "i < j" "j < length inputs"
    then show "ids_of (run_with (get_new_orders U pages) st0 inputs ! i)
      \<inter> ids_of (run_with (get_new_orders U pages) st0 inputs ! j) = {}"
      using get_new_orders_step
      by (intro run_with_disjoint [where seen = agg_sent and ids = ids_of]) auto
  qed
  have u1: "\<forall>out \<in> set (run_with ?fs sent0 calls). ids_of (returned out) \<inter> sent0 = {}"
  proof
    fix out assume "out \<in> set (run_with ?fs sent0 calls)"
    then show "ids_of (returned out) \<inter> sent0 = {}"
      using fs_st
      by (intro run_with_unseen [where seen = "\<lambda>s. s" and ids = "\<lambda>r. ids_of (returned r)"
            and step = ?fs and xs = calls]) auto
  qed
  have u2: "\<forall>out \<in> set (run_with fl_get_new_orders sent0 indexes). ids_of out \<inter> sent0 = {}"
  proof
    fix out assume "out \<in> set (run_with fl_get_new_orders sent0 indexes)"
    then show "ids_of out \<inter> sent0 = {}"
      using fl_step
      by (intro run_with_unseen [where seen = "\<lambda>s. s" and ids = ids_of
            and step = fl_get_new_orders and xs = indexes]) auto
  qed
  have u3: "\<forall>out \<in> set (run_with (get_new_orders U pages) st0 inputs). ids_of out \<inter> agg_sent st0 = {}"
  proof
    fix out assume "out \<in> set (run_with (get_new_orders U pages) st0 inputs)"
    then show "ids_of out \<inter> agg_sent st0 = {}"
      using get_new_orders_step
      by (intro run_with_unseen [where seen = agg_sent and ids = ids_of
            and step = "get_new_orders U pages" and xs = inputs]) auto
  qed
  have s1: "ids_of (returned (fst (fs_get_new_orders U sent server t pages))) \<inter> sent = {}"
    and s1': "snd (fs_get_new_orders U sent server t pages)
       = sent \<union> ids_of (returned (fst (fs_get_new_orders U sent server t pages)))"
    using fs_step [of U sent server t pages]
    by (cases "fs_get_new_orders U sent server t pages", simp)+
  have e1: "fst (parse_orders U server t pages) = Inr found \<longrightarrow>
        (\<forall>y \<in> set found. truthy (order_id y) \<longrightarrow>
            order_id y \<in> snd (fs_get_new_orders U sent server t pages))
      \<and> (\<forall>y \<in> set found. truthy (order_id y) \<and> order_id y \<notin> sent \<longrightarrow>
            order_id y \<in> ids_of (returned (fst (fs_get_new_orders U sent server t pages))))
      \<and> set (returned (fst (fs_get_new_orders U sent server t pages))) \<subseteq> set found"
  proof
    assume p: "fst (parse_orders U server t pages) = Inr found"
    show "(\<forall>y \<in> set found. truthy (order_id y) \<longrightarrow>
            order_id y \<in> snd (fs_get_new_orders U sent server t pages))
      \<and> (\<forall>y \<in> set found. truthy (order_id y) \<and> order_id y \<notin> sent \<longrightarrow>
            order_id y \<in> ids_of (returned (fst (fs_get_new_orders U sent server t pages))))
      \<and> set (returned (fst (fs_get_new_orders U sent server t pages))) \<subseteq> set found"
      unfolding fs_get_new_orders_returned [OF p]
      using fresh_marks [of _ found sent] fresh_complete [of _ found sent] fresh_subset [of sent found]
      by (simp add: returned_def)
  qed
  have e1': "fst (parse_orders U server t pages) = Inl e \<longrightarrow>
        fs_get_new_orders U sent server t pages = (Inl e, sent)"
    by (simp add: fs_get_new_orders_raised)
  have s2: "ids_of (fst (fl_get_new_orders sent index)) \<inter> sent = {}"
    and s2': "snd (fl_get_new_orders sent index) = sent \<union> ids_of (fst (fl_get_new_orders sent index))"
    using fresh_ids_disjoint [of sent "fl_parse_page index 5"]
    by (simp_all add: fl_get_new_orders_fresh)
  have e2: "\<forall>y \<in> set (fl_parse_page index 5). truthy (order_id y) \<longrightarrow>
        order_id y \<in> snd (fl_get_new_orders sent index)"
    using fresh_marks [of _ "fl_parse_page index 5" sent] by (simp add: fl_get_new_orders_fresh)
  have e2': "\<forall>y \<in> set (fl_parse_page index 5). truthy (order_id y) \<and> order_id y \<notin> sent \<longrightarrow>
        order_id y \<in> ids_of (fst (fl_get_new_orders sent index))"
    using fresh_complete [of _ "fl_parse_page index 5" sent] by (simp add: fl_get_new_orders_fresh)
  have e2'': "set (fst (fl_get_new_orders sent index)) \<subseteq> set (fl_parse_page index 5)"
    using fresh_subset [of sent "fl_parse_page index 5"] by (simp add: fl_get_new_orders_fresh)
  let ?got = "returned (fst (fs_get_new_orders U (fs_sent st) (fs_server inp) (fs_total_time inp) pages))
                 @ fst (fl_get_new_orders (fl_sent st) (fl_index inp))"
  have s3: "ids_of (fst (get_new_orders U pages st inp)) \<inter> agg_sent st = {}"
    and s3': "agg_sent (snd (get_new_orders U pages st inp))
       = agg_sent st \<union> ids_of (fst (get_new_orders U pages st inp))"
    using get_new_orders_step [of U pages st inp]
    by (cases "get_new_orders U pages st inp", simp)+
  have e3': "\<forall>y \<in> set ?got. truthy (order_id y) \<and> order_id y \<notin> agg_sent st \<longrightarrow>
        order_id y \<in> ids_of (fst (get_new_orders U pages st inp))"
    unfolding get_new_orders_ids using fresh_complete [of _ ?got "agg_sent st"] by blast
  have e3: "\<forall>y \<in> set ?got. truthy (order_id y) \<longrightarrow>
        order_id y \<in> agg_sent (snd (get_new_orders U pages st inp))"
    unfolding s3' using e3' by blast
  have e3'': "set (fst (get_new_orders U pages st inp)) \<subseteq> set ?got"
  proof -
    obtain r fs' where r: "fs_get_new_orders U (fs_sent st) (fs_server inp) (fs_total_time inp) pages = (r, fs')"
      by (cases "fs_get_new_orders U (fs_sent st) (fs_server inp) (fs_total_time inp) pages")
    obtain b fl' where b: "fl_get_new_orders (fl_sent st) (fl_index inp) = (b, fl')"
      by (cases "fl_get_new_orders (fl_sent st) (fl_index inp)")
    show ?thesis
      unfolding get_new_orders_unfold [OF r b] using r b fresh_subset [of "agg_sent st" "returned r @ b"]
      by (simp add: sort_orders_set)
  qed
  note a1 = get_new_orders_adapters [of U pages st inp, THEN conjunct1]
  note a2 = get_new_orders_adapters [of U pages st inp, THEN conjunct2]
  note g1 = get_new_orders_adapters_grow [of st U pages inp, THEN conjunct1]
  note g2 = get_new_orders_adapters_grow [of st U pages inp, THEN conjunct2]
  show ?thesis
    by (intro conjI)
       (rule r1 r2 r3 u1 u2 u3 s1 s1' e1 e1' s2 s2' e2 e2' e2'' s3 s3' e3 e3' e3'' a1 a2 g1 g2)+
qed
lemma upto_1_1: "[1..(1::int)] = [1]"
  by (simp add: upto_rec1)

lemma parse_x1: "parse_orders basic_runtime server_x1 1 1 = (Inr [order_x1], [1])"
  by (simp add: parse_orders_def upto_1_1 server_x1_def sort_orders_single)

lemma id_x: "order_id order_x1 = PStr (ascii ''X'')" "order_id order_x2 = PStr (ascii ''X'')"
  "truthy (PStr (ascii ''X''))" "order_x2 \<noteq> []"
  by (simp_all add: order_id_def dict_get_def sample_defs ascii_def)

lemma fs_call_sample:
  "fs_get_new_orders basic_runtime {} server_x1 1 1 = (Inr [order_x1], {PStr (ascii ''X'')})"
  "fs_get_new_orders basic_runtime {PStr (ascii ''X'')} server_x1 1 1 = (Inr [], {PStr (ascii ''X'')})"
  using id_x by (simp_all add: fs_get_new_orders_def parse_x1 order_id_def Let_def)

lemma fs_run_sample:
  "run_with (\<lambda>sent c. fs_get_new_orders basic_runtime sent (fst c) (snd c) 1) {}
     [(server_x1, 1), (server_x1, 1)] = [Inr [order_x1], Inr []]"
  by (simp add: fs_call_sample)

lemma fl_call_sample:
  "fl_get_new_orders {} (Some [Some order_x2]) = ([order_x2], {PStr (ascii ''X'')})"
  "fl_get_new_orders {PStr (ascii ''X'')} (Some [Some order_x2]) = ([], {PStr (ascii ''X'')})"
  using id_x by (simp_all add: fl_get_new_orders_def fl_parse_page_def order_id_def Let_def)

lemma fl_run_sample:
  "run_with fl_get_new_orders {} [Some [Some order_x2], Some [Some order_x2]] = [[order_x2], []]"
  by (simp add: fl_call_sample)

lemma agg_run_sample:
  "run_with (get_new_orders basic_runtime 1) \<lparr> fs_sent = {}, fl_sent = {}, agg_sent = {} \<rparr>
     [\<lparr> fs_server = server_x1, fs_total_time = 1, fl_index = Some [Some order_x2] \<rparr>,
      \<lparr> fs_server = server_x1, fs_total_time = 1, fl_index = Some [Some order_x2] \<rparr>]
   = [[order_x1], []]"
  using id_x
  by (simp add: get_new_orders_def fs_call_sample fl_call_sample filter_unique_orders_def
      order_id_def Let_def sort_orders_single sort_orders_by_time_eq)

theorem seen_ids_never_returned_again_witness:
  "run_with (\<lambda>sent c. fs_get_new_orders basic_runtime sent (fst c) (snd c) 1) {}
     [(server_x1, 1), (server_x1, 1)] = [Inr [order_x1], Inr []]
   \<and> ids_of (returned (run_with (\<lambda>sent c. fs_get_new_orders basic_runtime sent (fst c) (snd c) 1) {}
               [(server_x1, 1), (server_x1, 1)] ! 0))
      \<inter> ids_of (returned (run_with (\<lambda>sent c. fs_get_new_orders basic_runtime sent (fst c) (snd c) 1) {}
               [(server_x1, 1), (server_x1, 1)] ! 1)) = {}
   \<and> fst (parse_orders basic_runtime server_x1 1 1) = Inr [order_x1]
   \<and> truthy (order_id order_x1)
   \<and> order_id order_x1 \<in> snd (fs_get_new_orders basic_runtime {} server_x1 1 1)
   \<and> order_id order_x1 \<in> ids_of (returned (fst (fs_get_new_orders basic_runtime {} server_x1 1 1)))
   \<and> fst (parse_orders basic_runtime server_x1 0 1) = Inl ZeroDivisionError
   \<and> fs_get_new_orders basic_runtime {} server_x1 0 1 = (Inl ZeroDivisionError, {})
   \<and> run_with fl_get_new_orders {} [Some [Some order_x2], Some [Some order_x2]] = [[order_x2], []]
   \<and> ids_of (run_with fl_get_new_orders {} [Some [Some order_x2], Some [Some order_x2]] ! 0)
      \<inter> ids_of (run_with fl_get_new_orders {} [Some [Some order_x2], Some [Some order_x2]] ! 1) = {}
   \<and> fl_parse_page (Some [Some order_x2]) 5 = [order_x2]
   \<and> order_id order_x2 \<in> snd (fl_get_new_orders {} (Some [Some order_x2]))
   \<and> order_id order_x2 \<in> ids_of (fst (fl_get_new_orders {} (Some [Some order_x2])))
   \<and> run_with (get_new_orders basic_runtime 1) \<lparr> fs_sent = {}, fl_sent = {}, agg_sent = {} \<rparr>
        [\<lparr> fs_server = server_x1, fs_total_time = 1, fl_index = Some [Some order_x2] \<rparr>,
         \<lparr> fs_server = server_x1, fs_total_time = 1, fl_index = Some [Some order_x2] \<rparr>]
      = [[order_x1], []]
   \<and> ids_of (run_with (get_new_orders basic_runtime 1) \<lparr> fs_sent = {}, fl_sent = {}, agg_sent = {} \<rparr>
        [\<lparr> fs_server = server_x1, fs_total_time = 1, fl_index = Some [Some order_x2] \<rparr>,
         \<lparr> fs_server = server_x1, fs_total_time = 1, fl_index = Some [Some order_x2] \<rparr>] ! 0)
      \<inter> ids_of (run_with (get_new_orders basic_runtime 1) \<lparr> fs_sent = {}, fl_sent = {}, agg_sent = {} \<rparr>
        [\<lparr> fs_server = server_x1, fs_total_time = 1, fl_index = Some [Some order_x2] \<rparr>,
         \<lparr> fs_server = server_x1, fs_total_time = 1, fl_index = Some [Some order_x2] \<rparr>] ! 1) = {}
   \<and> order_id order_x1 \<in> agg_sent (snd (get_new_orders basic_runtime 1
          \<lparr> fs_sent = {}, fl_sent = {}, agg_sent = {} \<rparr>
          \<lparr> fs_server = server_x1, fs_total_time = 1, fl_index = Some [Some order_x2] \<rparr>))"
proof -
  let ?inp = "\<lparr> fs_server = server_x1, fs_total_time = 1, fl_index = Some [Some order_x2] \<rparr>"
  let ?st = "\<lparr> fs_sent = {}, fl_sent = {}, agg_sent = {} \<rparr>"
  have h: "(0::nat) < 1 \<and> 1 < length [(server_x1, 1::int), (server_x1, 1)]"
    "(0::nat) < 1 \<and> 1 < length [Some [Some order_x2], Some [Some order_x2]]"
    "(0::nat) < 1 \<and> 1 < length [?inp, ?inp]"
    by simp_all
  have p: "fst (parse_orders basic_runtime server_x1 1 1) = Inr [order_x1]"
    by (simp add: parse_x1)
  have z: "fst (parse_orders basic_runtime server_x1 0 1) = Inl ZeroDivisionError"
    by (simp add: parse_orders_def split: prod.splits)
  have fp: "fl_parse_page (Some [Some order_x2]) 5 = [order_x2]"
    using id_x(4) by (simp add: fl_parse_page_def)
  note T =
      seen_ids_never_returned_again [where i = 0 and j = 1 and U = basic_runtime and pages = 1
        and ?sent0.0 = "{}" and calls = "[(server_x1, 1), (server_x1, 1)]"
        and indexes = "[Some [Some order_x2], Some [Some order_x2]]"
        and ?st0.0 = ?st and inputs = "[?inp, ?inp]"
        and sent = "{}" and server = server_x1 and found = "[order_x1]"
        and index = "Some [Some order_x2]" and st = ?st and inp = ?inp and t = 1]
  note Z =
      seen_ids_never_returned_again [where U = basic_runtime and pages = 1
        and sent = "{}" and server = server_x1 and t = 0 and e = ZeroDivisionError]
  note Z9 = Z [THEN conjunct2, THEN conjunct2, THEN conjunct2, THEN conjunct2, THEN conjunct2,
      THEN conjunct2, THEN conjunct2, THEN conjunct2, THEN conjunct2]
  note T3 = T [THEN conjunct2, THEN conjunct2]
  note T6 = T3 [THEN conjunct2, THEN conjunct2, THEN conjunct2]
  note T9 = T6 [THEN conjunct2, THEN conjunct2, THEN conjunct2]
  note T12 = T9 [THEN conjunct2, THEN conjunct2, THEN conjunct2]
  note T15 = T12 [THEN conjunct2, THEN conjunct2, THEN conjunct2]
  note c1 = T [THEN conjunct1, THEN mp, OF h(1)]
  note c2 = T [THEN conjunct2, THEN conjunct1, THEN mp, OF h(2)]
  note c3 = T3 [THEN conjunct1, THEN mp, OF h(3)]
  note e1 = T9 [THEN conjunct1, THEN mp, OF p]
  note e1' = Z9 [THEN conjunct1, THEN mp, OF z]
  note e2 = T12 [THEN conjunct2, THEN conjunct1, THEN bspec, of order_x2, THEN mp]
  note e2' = T12 [THEN conjunct2, THEN conjunct2, THEN conjunct1, THEN bspec, of order_x2, THEN mp]
  note e3 = T15 [THEN conjunct2, THEN conjunct2, THEN conjunct2, THEN conjunct1, THEN bspec,
      of order_x1, THEN mp]
  have t: "truthy (order_id order_x1)" "truthy (order_id order_x2)"
    using id_x(3) by (simp_all only: id_x(1,2))
  have m1: "order_id order_x1 \<in> snd (fs_get_new_orders basic_runtime {} server_x1 1 1)"
    using e1 [THEN conjunct1, THEN bspec, of order_x1, THEN mp] t by simp
  have m2: "order_id order_x1 \<in> ids_of (returned (fst (fs_get_new_orders basic_runtime {} server_x1 1 1)))"
    using e1 [THEN conjunct2, THEN conjunct1, THEN bspec, of order_x1, THEN mp] t by simp
  have m3: "order_id order_x2 \<in> snd (fl_get_new_orders {} (Some [Some order_x2]))"
    using e2 t by (simp add: fp)
  have m4: "order_id order_x2 \<in> ids_of (fst (fl_get_new_orders {} (Some [Some order_x2])))"
    using e2' t by (simp add: fp)
  have m5: "order_id order_x1 \<in> agg_sent (snd (get_new_orders basic_runtime 1 ?st ?inp))"
    using e3 t by (simp add: fs_call_sample returned_def)
  show ?thesis
    by (intro conjI)
       (rule fs_run_sample c1 p t(1) m1 m2 z e1' fl_run_sample c2 fp m3 m4 agg_run_sample c3 m5)+
qed

section \<open>Records without a usable identity\<close>

lemma get_new_orders_truthy:
  "x \<in> set (fst (get_new_orders U pages st inp)) \<Longrightarrow> truthy (order_id x)"
proof -
  obtain r fs' where r: "fs_get_new_orders U (fs_sent st) (fs_server inp) (fs_total_time inp) pages = (r, fs')"
    by (cases "fs_get_new_orders U (fs_sent st) (fs_server inp) (fs_total_time inp) pages")
  obtain b fl' where b: "fl_get_new_orders (fl_sent st) (fl_index inp) = (b, fl')"
    by (cases "fl_get_new_orders (fl_sent st) (fl_index inp)")
  assume "x \<in> set (fst (get_new_orders U pages st inp))"
  then have "x \<in> set (fresh (agg_sent st) (returned r @ b))"
    unfolding get_new_orders_unfold [OF r b] by (simp add: sort_orders_set)
  then show ?thesis by (rule fresh_truthy)
qed

text \<open>
  Claim C10, as the code has it. A record whose \<^verbatim>\<open>id\<close> is missing, \<^verbatim>\<open>None\<close> or empty is
  never in the output of \<^verbatim>\<open>_filter_unique_orders\<close>, which adds no such value to the
  cross-source set, and never in what \<^verbatim>\<open>CombinedParser.get_new_orders\<close> hands to the
  notifier. The new-record filters of both adapters have the same guard: such a record
  is never in the result of an adapter's \<^verbatim>\<open>get_new_orders\<close> either.
\<close>

theorem falsy_ids_dropped_by_every_filter:
  "(\<forall>x \<in> set (fst (filter_unique_orders sent orders)). truthy (order_id x))
   \<and> (\<not> truthy i \<longrightarrow> (i \<in> snd (filter_unique_orders sent orders)) = (i \<in> sent))
   \<and> (\<forall>x \<in> set (fst (get_new_orders U pages st inp)). truthy (order_id x))
   \<and> (\<forall>x \<in> set (returned (fst (fs_get_new_orders U s server t pages))). truthy (order_id x))
   \<and> (\<forall>x \<in> set (fst (fl_get_new_orders s index)). truthy (order_id x))"
proof -
  have 1: "\<forall>x \<in> set (fst (filter_unique_orders sent orders)). truthy (order_id x)"
    using fresh_truthy by (auto simp: filter_unique_orders_fresh)
  have 2: "\<not> truthy i \<longrightarrow> (i \<in> snd (filter_unique_orders sent orders)) = (i \<in> sent)"
    using fresh_truthy by (auto simp: filter_unique_orders_fresh ids_of_def)
  have 3: "\<forall>x \<in> set (fst (get_new_orders U pages st inp)). truthy (order_id x)"
    using get_new_orders_truthy by blast
  have 4: "\<forall>x \<in> set (returned (fst (fs_get_new_orders U s server t pages))). truthy (order_id x)"
    using fresh_truthy
    by (cases "fst (parse_orders U server t pages)")
       (auto simp: fs_get_new_orders_def new_orders_loop_fresh returned_def)
  have 5: "\<forall>x \<in> set (fst (fl_get_new_orders s index)). truthy (order_id x)"
    using fresh_truthy by (auto simp: fl_get_new_orders_def new_orders_loop_fresh)
  show ?thesis using 1 2 3 4 5 by blast
qed

theorem falsy_ids_dropped_by_every_filter_witness:
  "\<not> truthy (order_id order_no_id) \<and> \<not> truthy (order_id order_none_id)
   \<and> \<not> truthy (order_id order_empty_id)
   \<and> filter_unique_orders {} [order_no_id, order_x1, order_none_id, order_empty_id]
       = ([order_x1], {PStr (ascii ''X'')})
   \<and> list_all (\<lambda>x. truthy (order_id x))
        (fst (filter_unique_orders {} [order_no_id, order_x1, order_none_id, order_empty_id]))
   \<and> PNone \<notin> snd (filter_unique_orders {} [order_no_id, order_x1, order_none_id, order_empty_id])
   \<and> PStr [] \<notin> snd (filter_unique_orders {} [order_no_id, order_x1, order_none_id, order_empty_id])"
proof -
  have e: "filter_unique_orders {} [order_no_id, order_x1, order_none_id, order_empty_id]
       = ([order_x1], {PStr (ascii ''X'')})"
    by (simp add: filter_unique_orders_def dict_get_def sample_defs ascii_def Let_def)
  have t: "\<not> truthy (order_id order_no_id)" "\<not> truthy (order_id order_none_id)"
    "\<not> truthy (order_id order_empty_id)" "\<not> truthy PNone" "\<not> truthy (PStr [])"
    by (simp_all add: order_id_def dict_get_def sample_defs)
  show ?thesis
    using t e
      falsy_ids_dropped_by_every_filter
        [where sent = "{}" and orders = "[order_no_id, order_x1, order_none_id, order_empty_id]"
           and i = PNone]
      falsy_ids_dropped_by_every_filter
        [where sent = "{}" and orders = "[order_no_id, order_x1, order_none_id, order_empty_id]"
           and i = "PStr []"]
    unfolding list_all_iff by blast
qed

text \<open>
  Such a record does not pass the adapter-level filter: an FL.ru index whose three records
  have no usable identity, and a FreelanceSpace page with a record whose identity is
  \<^verbatim>\<open>None\<close>, both yield no new order.
\<close>

theorem falsy_id_stopped_by_adapter_counterexample:
  "fl_parse_page (Some [Some order_no_id, Some order_none_id, Some order_empty_id]) 5
     = [order_no_id, order_none_id, order_empty_id]
   \<and> fst (fl_get_new_orders {} (Some [Some order_no_id, Some order_none_id, Some order_empty_id])) = []
   \<and> fst (parse_orders basic_runtime server_none_id 1 1) = Inr [order_none_id]
   \<and> fst (fs_get_new_orders basic_runtime {} server_none_id 1 1) = Inr []"
proof -
  have s: "sort_orders_by_time basic_runtime [order_none_id] = [order_none_id]"
    by (rule sort_orders_single)
  have p: "fst (parse_orders basic_runtime server_none_id 1 1) = Inr [order_none_id]"
    by (simp add: parse_orders_def upto_1_1 server_none_id_def s)
  have n: "order_none_id \<noteq> []" "order_no_id \<noteq> []" "order_empty_id \<noteq> []"
    by (simp_all add: sample_defs)
  show ?thesis
    using n by (simp add: fl_get_new_orders_def fl_parse_page_def fs_get_new_orders_def p
      new_orders_loop_fresh order_id_def dict_get_def sample_defs)
qed

section \<open>A fetch failure ends the page loop; the last log line may lose what was extracted\<close>

lemma page_loop_failure:
  assumes "k \<in> set (snd (page_loop server ps acc req))" "k \<notin> set req" "fetch_failure (server k)"
  shows "\<exists>pre post. ps = pre @ k # post \<and> k \<notin> set pre
           \<and> page_loop server ps acc req = (acc @ concat (map (extracted server) pre), req @ pre @ [k])"
  using assms
proof (induction ps arbitrary: acc req)
  case Nil
  then show ?case by simp
next
  case (Cons p ps)
  show ?case
  proof (cases "p = k")
    case True
    have "page_loop server (p # ps) acc req = (acc, req @ [k])"
      using True Cons.prems(3) by (cases "server k") (auto simp: fetch_failure_def)
    then show ?thesis using True by (intro exI [of _ "[]"] exI [of _ ps]) simp
  next
    case False
    have stop: "page_loop server (p # ps) acc req \<noteq> (acc, req @ [p])"
      using Cons.prems(1,2) False by auto
    have cont: "page_loop server (p # ps) acc req
        = page_loop server ps (acc @ extracted server p) (req @ [p])"
      using stop by (cases "server p") (auto simp: extracted_def split: if_splits)
    have "k \<in> set (snd (page_loop server ps (acc @ extracted server p) (req @ [p])))"
      using Cons.prems(1) cont by simp
    moreover have "k \<notin> set (req @ [p])" using Cons.prems(2) False by simp
    ultimately obtain pre post where pp: "ps = pre @ k # post" "k \<notin> set pre"
      "page_loop server ps (acc @ extracted server p) (req @ [p])
        = ((acc @ extracted server p) @ concat (map (extracted server) pre), (req @ [p]) @ pre @ [k])"
      using Cons.IH [OF _ _ Cons.prems(3)] by blast
    show ?thesis
      using pp cont False by (intro exI [of _ "p # pre"] exI [of _ post]) simp
  qed
qed

lemma upto_prefix_before:
  assumes "[1..n] = pre @ k # post" "k \<notin> set pre"
  shows "pre = [1..k - 1]"
proof -
  have "k \<in> set [1..n]" using assms(1) by simp
  then have k: "1 \<le> k" "k \<le> n" by simp_all
  have "[1..n] = [1..k - 1] @ k # [k + 1..n]" using k by (rule upto_split3)
  then have "pre @ k # post = [1..k - 1] @ k # [k + 1..n]" using assms(1) by simp
  moreover have "distinct (pre @ k # post)" using assms(1) distinct_upto by metis
  then have "k \<notin> set post" by simp
  ultimately show ?thesis using assms(2) append_Cons_eq_iff [of k pre post] by blast
qed

lemma parse_orders_failure:
  assumes "k \<in> set (snd (parse_orders U server t max_pages))" "fetch_failure (server k)"
  shows "parse_orders U server t max_pages
       = (if t = 0 then Inl ZeroDivisionError
          else Inr (sort_orders_by_time U (concat (map (extracted server) [1..k - 1]))), [1..k])"
proof -
  have "k \<in> set (snd (page_loop server [1..max_pages] [] []))"
    using assms(1) by (simp add: parse_orders_def split: prod.splits if_splits)
  then obtain pre post where pp: "[1..max_pages] = pre @ k # post" "k \<notin> set pre"
      "page_loop server [1..max_pages] [] [] = (concat (map (extracted server) pre), pre @ [k])"
    using page_loop_failure [of k server "[1..max_pages]" "[]" "[]"] assms(2) by auto
  have pre: "pre = [1..k - 1]" using pp(1,2) by (rule upto_prefix_before)
  have "k \<in> set [1..max_pages]" using pp(1) by simp
  then have "1 \<le> k" by simp
  then have "[1..k - 1] @ [k] = [1..k]" by (simp add: upto_rec2)
  then show ?thesis using pp(3) pre by (simp add: parse_orders_def)
qed

text \<open>
  What holds when the clock has advanced during the call. When the request of
  page \<open>k\<close> is made and fails by a timeout, a connection error or a status other than 200,
  the pages requested in the cycle are exactly 1 to \<open>k\<close>, no page after \<open>k\<close>; and if
  \<open>total_time\<close> is not 0, \<^verbatim>\<open>parse_orders\<close> returns the sorted list of all orders extracted
  from the pages 1 to \<open>k - 1\<close>, none lost, and \<^verbatim>\<open>get_new_orders\<close> returns every identity
  among them that is usable and new. If \<open>total_time\<close> is 0, both raise
  \<^verbatim>\<open>ZeroDivisionError\<close>.
\<close>

lemma partial_results_when_clock_advances:
  assumes "k \<in> set (snd (parse_orders U server t max_pages))" "fetch_failure (server k)"
  shows "snd (parse_orders U server t max_pages) = [1..k]"
    and "t \<noteq> 0 \<Longrightarrow> fst (parse_orders U server t max_pages)
         = Inr (sort_orders_by_time U (concat (map (extracted server) [1..k - 1])))"
    and "t \<noteq> 0 \<Longrightarrow> mset (returned (fst (parse_orders U server t max_pages)))
         = mset (concat (map (extracted server) [1..k - 1]))"
    and "t \<noteq> 0 \<Longrightarrow> x \<in> set (concat (map (extracted server) [1..k - 1])) \<Longrightarrow>
           truthy (order_id x) \<Longrightarrow> order_id x \<notin> sent
           \<Longrightarrow> order_id x \<in> ids_of (returned (fst (fs_get_new_orders U sent server t max_pages)))"
    and "t = 0 \<Longrightarrow> fs_get_new_orders U sent server t max_pages = (Inl ZeroDivisionError, sent)"
proof -
  note po = parse_orders_failure [OF assms]
  show "snd (parse_orders U server t max_pages) = [1..k]" by (simp add: po)
  show "t \<noteq> 0 \<Longrightarrow> fst (parse_orders U server t max_pages)
         = Inr (sort_orders_by_time U (concat (map (extracted server) [1..k - 1])))"
    by (simp add: po)
  show "t \<noteq> 0 \<Longrightarrow> mset (returned (fst (parse_orders U server t max_pages)))
         = mset (concat (map (extracted server) [1..k - 1]))"
    by (simp add: po returned_def sort_orders_mset)
  show "t = 0 \<Longrightarrow> fs_get_new_orders U sent server t max_pages = (Inl ZeroDivisionError, sent)"
    using po by (simp add: fs_get_new_orders_def)
  assume t: "t \<noteq> 0" and x: "x \<in> set (concat (map (extracted server) [1..k - 1]))"
      "truthy (order_id x)" "order_id x \<notin> sent"
  have "x \<in> set (sort_orders_by_time U (concat (map (extracted server) [1..k - 1])))"
    using x(1) by (simp only: sort_orders_set)
  then show "order_id x \<in> ids_of (returned (fst (fs_get_new_orders U sent server t max_pages)))"
    using fresh_complete [OF _ x(2,3)] t
    by (simp add: fs_get_new_orders_def po new_orders_loop_fresh returned_def)
qed

lemma upto_1_3: "[1..(3::int)] = [1, 2, 3]"
  by (simp add: upto_rec1)

lemma page_loop_sample: "page_loop server_refused_2 [1, 2, 3] [] [] = ([order_a], [1, 2])"
  by (simp add: server_refused_2_def)

lemma id_a: "order_id order_a = PStr (ascii ''a'')" "truthy (PStr (ascii ''a''))"
  by (simp_all add: order_id_def dict_get_def order_a_def ascii_def)

text \<open>
  Claim C6 at a cycle in which the clock does not advance. Page 1 answers with one order
  and the request of page 2 fails with a connection error: the loop stops there, with the
  order of page 1 in \<^verbatim>\<open>all_orders\<close>. The last log line of \<^verbatim>\<open>parse_orders\<close> then divides by
  \<open>total_time\<close>, outside every \<^verbatim>\<open>try\<close>: with \<open>total_time = 0\<close> it raises
  \<^verbatim>\<open>ZeroDivisionError\<close>, which leaves \<^verbatim>\<open>parse_orders\<close> and the adapter's \<^verbatim>\<open>get_new_orders\<close>,
  and the order of page 1 is not returned. In the same cycle with \<open>total_time = 1\<close> the
  order is returned.
\<close>

theorem fetch_failure_then_division_by_zero:
  "fetch_failure (server_refused_2 2)
   \<and> extracted server_refused_2 1 = [order_a]
   \<and> parse_orders basic_runtime server_refused_2 0 3 = (Inl ZeroDivisionError, [1, 2])
   \<and> fs_get_new_orders basic_runtime {} server_refused_2 0 3 = (Inl ZeroDivisionError, {})
   \<and> parse_orders basic_runtime server_refused_2 1 3 = (Inr [order_a], [1, 2])
   \<and> fs_get_new_orders basic_runtime {} server_refused_2 1 3 = (Inr [order_a], {PStr (ascii ''a'')})"
proof -
  have p0: "parse_orders basic_runtime server_refused_2 0 3 = (Inl ZeroDivisionError, [1, 2])"
    unfolding parse_orders_def upto_1_3 page_loop_sample by simp
  have p1: "parse_orders basic_runtime server_refused_2 1 3 = (Inr [order_a], [1, 2])"
    unfolding parse_orders_def upto_1_3 page_loop_sample by (simp add: sort_orders_single)
  have f0: "fs_get_new_orders basic_runtime {} server_refused_2 0 3 = (Inl ZeroDivisionError, {})"
    by (simp add: fs_get_new_orders_def p0)
  have f1: "fs_get_new_orders basic_runtime {} server_refused_2 1 3 = (Inr [order_a], {PStr (ascii ''a'')})"
    using id_a by (simp add: fs_get_new_orders_def p1 order_id_def Let_def)
  have e: "fetch_failure (server_refused_2 2)" "extracted server_refused_2 1 = [order_a]"
    by (simp_all add: fetch_failure_def extracted_def server_refused_2_def)
  show ?thesis using e p0 p1 f0 f1 by simp
qed

section \<open>The author field and doubled names\<close>

text \<open>
  The second loop accepts a text only if it does not end with its own first half. A text
  made of two equal halves ends with its first half, so it is never accepted, and the
  branch that would keep one half is never taken: the loop returns the author it was
  given or the whole text of a span.
\<close>

lemma doubled_name_rejected:
  "take (length t div 2) t = drop (length t div 2) t \<Longrightarrow> suffix (take (length t div 2) t) t"
  by (metis suffix_drop)

lemma semibold_loop_never_halves:
  "semibold_span_loop title spans author \<in> insert author (span_text ` set spans)"
proof (induction spans)
  case Nil
  show ?case by simp
next
  case (Cons sp spans)
  show ?case
    using Cons doubled_name_rejected [of "span_text sp"] by (auto simp: Let_def)
qed

text \<open>
  Claim C8 at the doubled name "IvanIvan" with the title "Landing page". In a span of
  the first kind the name is accepted and kept whole: the author is "IvanIvan", not
  "Ivan". In a span of the second kind the name is rejected by the guard: the author
  stays "Ne ukazan".
\<close>

theorem doubled_author_not_collapsed:
  "ascii ''IvanIvan'' = ascii ''Ivan'' @ ascii ''Ivan''
   \<and> extract_author (ascii ''Landing page'') (Some [span_hidden_doubled]) = ascii ''IvanIvan''
   \<and> extract_author (ascii ''Landing page'') (Some [span_semibold_doubled]) = ne_ukazan"
  by (simp add: extract_author_def span_hidden_doubled_def span_semibold_doubled_def ascii_def
      ne_ukazan_def sublist_Cons_right suffix_def)

section \<open>The identity of a listing\<close>

text \<open>The recursive equations of the split and of the decimal rendering are applied by
  hand.\<close>

declare py_split.simps [simp del]
declare decimal_str.simps [simp del]

lemma find_sub_first:
  assumes "sep \<noteq> []" "\<not> sublist sep (pre @ butlast sep)"
  shows "find_sub sep (pre @ sep @ post) = Some (length pre)"
  using assms(2)
proof (induction pre)
  case Nil
  obtain c cs where "sep @ post = c # cs" using assms(1) by (cases "sep @ post") auto
  moreover have "prefix sep (sep @ post)" by simp
  ultimately show ?case by simp
next
  case (Cons a pre)
  have np: "\<not> prefix sep (a # pre @ sep @ post)"
  proof
    assume p: "prefix sep (a # pre @ sep @ post)"
    have q: "prefix (a # pre @ butlast sep) (a # pre @ sep @ post)"
      using assms(1) by (metis append_butlast_last_id append.assoc prefix_Cons prefix_def)
    have "length sep \<le> length (a # pre @ butlast sep)" using assms(1) by simp
    then have "prefix sep (a # pre @ butlast sep)"
      using p q by (metis prefix_length_prefix)
    then show False using Cons.prems by (simp add: sublist_Cons_right)
  qed
  have "\<not> sublist sep (pre @ butlast sep)" using Cons.prems by (simp add: sublist_Cons_right)
  then show ?case using Cons.IH np by simp
qed

lemma find_sub_bound: "find_sub sep s = Some i \<Longrightarrow> prefix sep (drop i s) \<and> i \<le> length s"
proof (induction s arbitrary: i)
  case Nil
  then show ?case by (auto split: if_splits)
next
  case (Cons c cs)
  then show ?case by (auto split: if_splits)
qed

lemma find_sub_absent: "\<not> sublist sep s \<Longrightarrow> find_sub sep s = None"
proof (rule ccontr)
  assume a: "\<not> sublist sep s" and "find_sub sep s \<noteq> None"
  then obtain i where "find_sub sep s = Some i" by auto
  then have "prefix sep (drop i s)" using find_sub_bound by blast
  then have "sublist sep (drop i s)" by (rule prefix_imp_sublist)
  then have "sublist sep s" by (metis sublist_drop sublist_order.order_trans)
  with a show False by simp
qed

lemma no_occurrence_inside:
  assumes "sep \<noteq> []" "rest = [] \<or> hd rest \<notin> set sep"
  shows "find_sub sep (seg @ rest) = Some i \<Longrightarrow> \<not> sublist sep seg \<Longrightarrow> length seg \<le> i"
proof (induction seg arbitrary: i)
  case Nil
  then show ?case by simp
next
  case (Cons c seg)
  have np: "\<not> prefix sep (c # seg @ rest)"
  proof
    assume "prefix sep (c # seg @ rest)"
    then have "prefix sep ((c # seg) @ rest)" by simp
    then consider "prefix sep (c # seg)" | us where "sep = (c # seg) @ us" "prefix us rest"
      unfolding prefix_append by blast
    then show False
    proof cases
      case 1
      then show False using Cons.prems(2) prefix_imp_sublist by blast
    next
      case 2
      show False
      proof (cases us)
        case Nil
        then have "prefix sep (c # seg)" using 2(1) by simp
        then show False using Cons.prems(2) prefix_imp_sublist by blast
      next
        case (Cons u us')
        then have "rest \<noteq> []" "hd rest = u" using 2(2) by (auto simp: prefix_def)
        moreover have "u \<in> set sep" using 2(1) Cons by simp
        ultimately show False using assms(2) by auto
      qed
    qed
  qed
  then obtain i' where i': "find_sub sep (seg @ rest) = Some i'" "i = Suc i'"
    using Cons.prems(1) by auto
  have "\<not> sublist sep seg" using Cons.prems(2) by (simp add: sublist_Cons_right)
  then show ?case using Cons.IH [OF i'(1)] i'(2) by simp
qed

text \<open>The first piece of a split.\<close>

lemma split_head:
  "sep \<noteq> [] \<Longrightarrow>
   subscript (py_split sep s) 0 = Inr (case find_sub sep s of None \<Rightarrow> s | Some i \<Rightarrow> take i s)"
  by (subst py_split.simps) (simp add: subscript_def split: option.splits)

lemma split_second:
  "sep \<noteq> [] \<Longrightarrow> find_sub sep s = Some i \<Longrightarrow>
   subscript (py_split sep s) 1 = subscript (py_split sep (drop (i + length sep) s)) 0"
  by (subst py_split.simps) (simp add: subscript_def)

lemma first_piece_of_segment:
  assumes "sep \<noteq> []" "\<not> sublist sep seg" "rest = [] \<or> hd rest \<notin> set sep"
  shows "\<exists>r. (case find_sub sep (seg @ rest) of None \<Rightarrow> seg @ rest | Some i \<Rightarrow> take i (seg @ rest))
             = seg @ r \<and> prefix r rest"
proof (cases "find_sub sep (seg @ rest)")
  case None
  then show ?thesis by simp
next
  case (Some i)
  then have "length seg \<le> i" using no_occurrence_inside [OF assms(1,3)] assms(2) by blast
  then have "take i (seg @ rest) = seg @ take (i - length seg) rest" by simp
  then show ?thesis using Some by (simp add: take_is_prefix)
qed

lemma cut_at_ampersand:
  assumes "38 \<notin> set seg" "prefix r rest" "rest = [] \<or> hd rest = 38"
  shows "(case find_sub [38] (seg @ r) of None \<Rightarrow> seg @ r | Some i \<Rightarrow> take i (seg @ r)) = seg"
proof (cases r)
  case Nil
  have "\<not> sublist [38] seg" using assms(1) by (metis sublist_Cons_Nil sublist_imp_subseq subseq_singleton_left)
  then show ?thesis using Nil by (simp add: find_sub_absent)
next
  case (Cons a r')
  then have "a = 38" using assms(2,3) by (auto simp: prefix_def)
  have ns: "\<not> sublist [38] (seg @ butlast [38])"
    using assms(1) by (metis append_Nil2 butlast.simps(2) sublist_imp_subseq subseq_singleton_left)
  have "find_sub [38] (seg @ [38] @ r') = Some (length seg)"
    by (rule find_sub_first) (use ns in simp_all)
  then show ?thesis using Cons \<open>a = 38\<close> by simp
qed


lemma marker_nonempty: "order_marker \<noteq> []" "projects_marker \<noteq> []" "length projects_marker = 10"
  by (simp_all add: order_marker_def projects_marker_def ascii_def)

lemma amp_not_in_marker: "38 \<notin> set order_marker"
  by (simp add: order_marker_def ascii_def)

lemma fs_id_fallback:
  "\<not> sublist order_marker url \<Longrightarrow>
   fs_order_id hash title url = PStr (py_str (abs (hash (title @ url))))"
  by (simp add: fs_order_id_def order_marker_def)

text \<open>The marker \<^verbatim>\<open>order?id=\<close> cannot overlap itself: an occurrence that begins in a text
  and runs into a following marker would need a second "o" in the marker.\<close>

lemma marker_unbordered:
  assumes "\<not> sublist order_marker xs"
  shows "\<not> sublist order_marker (xs @ butlast order_marker)"
proof
  assume "sublist order_marker (xs @ butlast order_marker)"
  then consider "sublist order_marker xs" | "sublist order_marker (butlast order_marker)"
    | xs1 xs2 where "order_marker = xs1 @ xs2" "suffix xs1 xs" "prefix xs2 (butlast order_marker)"
    unfolding sublist_append by blast
  then show False
  proof cases
    case 1
    then show False using assms by simp
  next
    case 2
    then have "length order_marker \<le> length (butlast order_marker)" by (rule sublist_length_le)
    then show False by (simp add: order_marker_def ascii_def)
  next
    case 3
    show False
    proof (cases xs2)
      case Nil
      then have "suffix order_marker xs" using 3(1,2) by simp
      then show False using assms by blast
    next
      case (Cons c cs)
      then have c: "c = 111" using 3(3) by (simp add: order_marker_def ascii_def)
      show False
      proof (cases xs1)
        case Nil
        then have "prefix order_marker (butlast order_marker)" using 3(1,3) by simp
        then have "length order_marker \<le> length (butlast order_marker)" by (rule prefix_length_le)
        then show False by (simp add: order_marker_def ascii_def)
      next
        case (Cons a as)
        then have e: "order_marker = a # as @ 111 # cs" using 3(1) \<open>xs2 = c # cs\<close> c by simp
        have "111 \<in> set (tl order_marker)" by (subst e) simp
        then show False by (simp add: order_marker_def ascii_def)
      qed
    qed
  qed
qed

lemma fs_id_segment:
  assumes url: "url = pre @ order_marker @ seg @ rest"
    and first: "\<not> sublist order_marker pre"
    and seg: "38 \<notin> set seg" "\<not> sublist order_marker seg"
    and rest: "rest = [] \<or> hd rest = 38 \<or> prefix order_marker rest"
  shows "fs_order_id hash title url =
     (if seg = [] then PStr (py_str (abs (hash (title @ url)))) else PStr seg)"
proof -
  have inurl: "sublist order_marker url" unfolding url by (simp add: sublist_append)
  have f: "find_sub order_marker url = Some (length pre)"
    unfolding url by (rule find_sub_first [OF marker_nonempty(1) marker_unbordered [OF first]])
  have "subscript (py_split order_marker url) 1
        = subscript (py_split order_marker (drop (length pre + length order_marker) url)) 0"
    by (rule split_second [OF marker_nonempty(1) f])
  also have "drop (length pre + length order_marker) url = seg @ rest" unfolding url by simp
  finally have one: "subscript (py_split order_marker url) 1
        = subscript (py_split order_marker (seg @ rest)) 0" .
  have "\<exists>r. subscript (py_split order_marker (seg @ rest)) 0 = Inr (seg @ r)
            \<and> (r = [] \<or> hd r = 38)"
  proof (cases "rest = [] \<or> hd rest = 38")
    case True
    then have rest': "rest = [] \<or> hd rest \<notin> set order_marker" using amp_not_in_marker by auto
    obtain r where r: "(case find_sub order_marker (seg @ rest) of None \<Rightarrow> seg @ rest
                      | Some i \<Rightarrow> take i (seg @ rest)) = seg @ r" "prefix r rest"
      using first_piece_of_segment [OF marker_nonempty(1) seg(2) rest'] by blast
    have "r = [] \<or> hd r = 38" using r(2) True by (cases r) (auto simp: prefix_def)
    then show ?thesis
      using split_head [OF marker_nonempty(1), of "seg @ rest"] r(1) by auto
  next
    case False
    then obtain rest' where rest': "rest = order_marker @ rest'" using rest by (auto simp: prefix_def)
    have "find_sub order_marker (seg @ order_marker @ rest') = Some (length seg)"
      by (rule find_sub_first [OF marker_nonempty(1) marker_unbordered [OF seg(2)]])
    then have "subscript (py_split order_marker (seg @ rest)) 0 = Inr (seg @ [])"
      using split_head [OF marker_nonempty(1), of "seg @ rest"] rest' by simp
    then show ?thesis by blast
  qed
  then obtain r where r: "subscript (py_split order_marker (seg @ rest)) 0 = Inr (seg @ r)"
      "r = [] \<or> hd r = 38" by blast
  have "(case find_sub [38] (seg @ r) of None \<Rightarrow> seg @ r | Some i \<Rightarrow> take i (seg @ r)) = seg"
    by (rule cut_at_ampersand [OF seg(1) _ r(2)]) simp
  then have two: "subscript (py_split [38] (seg @ r)) 0 = Inr seg"
    using split_head [of "[38]" "seg @ r"] by simp
  show ?thesis
    using inurl one r(1) two
    by (simp add: fs_order_id_def order_marker_def [symmetric] ascii_def [of "''&''"])
qed

text \<open>The search of the pattern: what it finds is a match, it finds one whenever there is
  one, and it finds the leftmost.\<close>

lemma backtrack_sound:
  "backtrack_digits n rest = Some g \<Longrightarrow>
   \<exists>k. 0 < k \<and> k \<le> n \<and> k < length rest \<and> rest ! k = 47 \<and> g = take k rest"
  by (induction n) (auto split: if_splits intro: le_SucI)

lemma backtrack_finds:
  "0 < k \<Longrightarrow> k \<le> n \<Longrightarrow> k < length rest \<Longrightarrow> rest ! k = 47 \<Longrightarrow> backtrack_digits n rest \<noteq> None"
  by (induction n) (auto simp: le_Suc_eq)

lemma backtrack_full_run:
  assumes "ds \<noteq> []"
  shows "backtrack_digits (length ds) (ds @ 47 # rest) = Some ds"
proof -
  obtain n where n: "length ds = Suc n" using assms by (cases ds) auto
  have "(ds @ 47 # rest) ! Suc n = 47" using n by (metis nth_append_length)
  then show ?thesis using n by simp
qed

lemma head_match_sound:
  assumes "prefix projects_marker s"
    "backtrack_digits (length (takeWhile d (drop 10 s))) (drop 10 s) = Some g"
  shows "project_match d s 0 g"
proof -
  let ?rest = "drop 10 s"
  obtain k where k: "0 < k" "k \<le> length (takeWhile d ?rest)" "k < length ?rest"
      "?rest ! k = 47" "g = take k ?rest"
    using backtrack_sound [OF assms(2)] by blast
  have s: "s = projects_marker @ ?rest"
    using assms(1) marker_nonempty(3) by (metis append_eq_conv_conj prefixE)
  have "g = take k (takeWhile d ?rest)"
    using k(2,5) by (metis takeWhile_dropWhile_id take_append min.absorb2 diff_is_0_eq take_0
        append_Nil2 length_take min.commute)
  then have dg: "\<forall>c \<in> set g. d c"
    by (metis in_set_takeD set_takeWhileD)
  have ne: "g \<noteq> []" using k(1,3,5) by auto
  have "take (Suc k) ?rest = g @ [47]"
    using k(3,4,5) by (simp add: take_Suc_conv_app_nth)
  then have "prefix (g @ [47]) ?rest" by (metis take_is_prefix)
  then have "prefix (projects_marker @ g @ [47]) s" using s by (metis same_prefix_prefix)
  then show ?thesis using dg ne by (simp add: project_match_def)
qed

lemma head_match_complete:
  assumes "project_match d s 0 g"
  shows "prefix projects_marker s
    \<and> backtrack_digits (length (takeWhile d (drop 10 s))) (drop 10 s) \<noteq> None
    \<and> (\<not> d 47 \<longrightarrow> backtrack_digits (length (takeWhile d (drop 10 s))) (drop 10 s) = Some g)"
proof -
  obtain r where s: "s = projects_marker @ g @ 47 # r" and g: "g \<noteq> []" "\<forall>c \<in> set g. d c"
    using assms by (auto simp: project_match_def prefix_def)
  have rest: "drop 10 s = g @ 47 # r" using s marker_nonempty(3) by simp
  have p: "prefix projects_marker s" using s by simp
  have le: "length g \<le> length (takeWhile d (g @ 47 # r))"
    using g(2) by (simp add: takeWhile_append2)
  have "backtrack_digits (length (takeWhile d (g @ 47 # r))) (g @ 47 # r) \<noteq> None"
    by (rule backtrack_finds [of "length g"]) (use g(1) le in simp_all)
  moreover have "backtrack_digits (length (takeWhile d (g @ 47 # r))) (g @ 47 # r) = Some g"
    if "\<not> d 47"
  proof -
    have "takeWhile d (g @ 47 # r) = g" using g(2) that by (simp add: takeWhile_append2)
    then show ?thesis using backtrack_full_run [OF g(1), of r] by simp
  qed
  ultimately show ?thesis using p rest by simp
qed

lemma project_match_Cons: "project_match d (c # cs) (Suc i) g = project_match d cs i g"
  by (simp add: project_match_def)

lemma search_sound:
  "search_project_id d href = Some g \<Longrightarrow> \<exists>i. project_match d href i g"
proof (induction href)
  case Nil
  then show ?case by simp
next
  case (Cons c cs)
  show ?case
  proof (cases "prefix projects_marker (c # cs)
      \<and> backtrack_digits (length (takeWhile d (drop 10 (c # cs)))) (drop 10 (c # cs)) \<noteq> None")
    case True
    then have "backtrack_digits (length (takeWhile d (drop 10 (c # cs)))) (drop 10 (c # cs)) = Some g"
      using Cons.prems by (auto simp: projects_marker_def [symmetric] Let_def)
    then have "project_match d (c # cs) 0 g" using True head_match_sound by blast
    then show ?thesis by blast
  next
    case False
    then have "search_project_id d cs = Some g"
      using Cons.prems by (auto simp: projects_marker_def [symmetric] Let_def split: if_splits)
    then obtain i where "project_match d cs i g" using Cons.IH by blast
    then have "project_match d (c # cs) (Suc i) g" by (simp add: project_match_Cons)
    then show ?thesis by blast
  qed
qed

lemma search_complete:
  "project_match d href i g \<Longrightarrow> search_project_id d href \<noteq> None"
proof (induction href arbitrary: i)
  case Nil
  then show ?case by (simp add: project_match_def projects_marker_def ascii_def)
next
  case (Cons c cs)
  show ?case
  proof (cases "prefix projects_marker (c # cs)
      \<and> backtrack_digits (length (takeWhile d (drop 10 (c # cs)))) (drop 10 (c # cs)) \<noteq> None")
    case True
    then show ?thesis by (auto simp: projects_marker_def [symmetric] Let_def)
  next
    case False
    then have "\<not> project_match d (c # cs) 0 g" using head_match_complete by blast
    then obtain i' where "i = Suc i'" using Cons.prems by (cases i) auto
    then have "project_match d cs i' g" using Cons.prems by (simp add: project_match_Cons)
    then have "search_project_id d cs \<noteq> None" by (rule Cons.IH)
    then show ?thesis using False by (auto simp: projects_marker_def [symmetric] Let_def)
  qed
qed

lemma search_leftmost:
  assumes "\<not> d 47"
  shows "project_match d href i g \<Longrightarrow> (\<forall>j < i. \<forall>g'. \<not> project_match d href j g') \<Longrightarrow>
         search_project_id d href = Some g"
proof (induction href arbitrary: i)
  case Nil
  then show ?case by (simp add: project_match_def projects_marker_def ascii_def)
next
  case (Cons c cs)
  show ?case
  proof (cases i)
    case 0
    then have "prefix projects_marker (c # cs)
      \<and> backtrack_digits (length (takeWhile d (drop 10 (c # cs)))) (drop 10 (c # cs)) = Some g"
      using head_match_complete [of d "c # cs" g] Cons.prems(1) assms by blast
    then show ?thesis by (simp add: projects_marker_def [symmetric] Let_def)
  next
    case (Suc i')
    have no0: "\<not> (prefix projects_marker (c # cs)
      \<and> backtrack_digits (length (takeWhile d (drop 10 (c # cs)))) (drop 10 (c # cs)) \<noteq> None)"
    proof
      assume a: "prefix projects_marker (c # cs)
        \<and> backtrack_digits (length (takeWhile d (drop 10 (c # cs)))) (drop 10 (c # cs)) \<noteq> None"
      then obtain g0 where
        "backtrack_digits (length (takeWhile d (drop 10 (c # cs)))) (drop 10 (c # cs)) = Some g0"
        by blast
      then have "project_match d (c # cs) 0 g0" using a head_match_sound by blast
      then show False using Cons.prems(2) Suc by blast
    qed
    have m: "project_match d cs i' g" using Cons.prems(1) Suc by (simp add: project_match_Cons)
    have "\<forall>j < i'. \<forall>g'. \<not> project_match d cs j g'"
    proof (intro allI impI)
      fix j g' assume "j < i'"
      then have "\<not> project_match d (c # cs) (Suc j) g'" using Cons.prems(2) Suc by simp
      then show "\<not> project_match d cs j g'" by (simp add: project_match_Cons)
    qed
    then have "search_project_id d cs = Some g" using Cons.IH [OF m] by blast
    then show ?thesis using no0 by (auto simp: projects_marker_def [symmetric] Let_def)
  qed
qed

lemma decimal_str_digits: "c \<in> set (decimal_str n) \<Longrightarrow> 48 \<le> c \<and> c \<le> 57"
proof (induction n rule: decimal_str.induct)
  case (1 n)
  show ?case
  proof (cases "n < 10")
    case True
    then show ?thesis using "1.prems" by (subst (asm) decimal_str.simps) auto
  next
    case False
    have "n mod 10 < 10" by simp
    then show ?thesis
      using False "1.prems" "1.IH"
      by (subst (asm) decimal_str.simps) (auto simp del: mod_less_divisor)
  qed
qed


lemma fl_id_fallback:
  assumes "\<forall>i g. \<not> project_match (is_digit U) href i g"
  shows "fl_order_id U hash href = ascii ''fl_'' @ py_str (abs (hash href) mod 1000000)"
proof -
  have "search_project_id (is_digit U) href = None"
  proof (cases "search_project_id (is_digit U) href")
    case (Some g)
    then show ?thesis using search_sound assms by blast
  qed simp
  then show ?thesis by (simp add: fl_order_id_def)
qed

lemma fl_id_segment:
  assumes "project_match (is_digit U) href i g" "\<forall>j < i. \<forall>g'. \<not> project_match (is_digit U) href j g'"
    "\<not> is_digit U 47"
  shows "fl_order_id U hash href = ascii ''fl_'' @ g"
  using search_leftmost [OF assms(3,1,2)] by (simp add: fl_order_id_def)

lemma fl_id_is_match_or_hash:
  "(\<exists>i g. project_match (is_digit U) href i g \<and> fl_order_id U hash href = ascii ''fl_'' @ g)
   \<or> ((\<forall>i g. \<not> project_match (is_digit U) href i g)
      \<and> fl_order_id U hash href = ascii ''fl_'' @ py_str (abs (hash href) mod 1000000))"
proof (cases "search_project_id (is_digit U) href")
  case None
  then have "\<forall>i g. \<not> project_match (is_digit U) href i g" using search_complete by blast
  then show ?thesis using None by (simp add: fl_order_id_def)
next
  case (Some g)
  then obtain i where "project_match (is_digit U) href i g" using search_sound by blast
  then show ?thesis using Some by (auto simp: fl_order_id_def)
qed
text \<open>Every URL that holds the marker has the shape the identity is read from.\<close>

lemma least_split:
  assumes "\<exists>p r. s = p @ r \<and> Q r"
  shows "\<exists>p r. s = p @ r \<and> Q r \<and> (\<forall>p' r'. s = p' @ r' \<and> Q r' \<longrightarrow> length p \<le> length p')"
proof -
  let ?P = "\<lambda>n. \<exists>p r. s = p @ r \<and> Q r \<and> length p = n"
  have "\<exists>n. ?P n" using assms by blast
  then obtain n where n: "?P n" "\<forall>m < n. \<not> ?P m" unfolding exists_least_iff [of ?P] by blast
  then obtain p r where pr: "s = p @ r" "Q r" "length p = n" by blast
  have "length p \<le> length p'" if "s = p' @ r'" "Q r'" for p' r'
  proof (rule ccontr)
    assume "\<not> length p \<le> length p'"
    then have "length p' < n" using pr(3) by simp
    then show False using n(2) that by blast
  qed
  then show ?thesis using pr by blast
qed

lemma fs_url_shape:
  assumes "sublist order_marker url"
  shows "\<exists>pre seg rest. url = pre @ order_marker @ seg @ rest \<and> \<not> sublist order_marker pre
           \<and> 38 \<notin> set seg \<and> \<not> sublist order_marker seg
           \<and> (rest = [] \<or> hd rest = 38 \<or> prefix order_marker rest)"
proof -
  have "\<exists>p r. url = p @ r \<and> prefix order_marker r"
    using assms by (auto simp: sublist_def prefix_def)
  then obtain pre r where pre: "url = pre @ r" "prefix order_marker r"
      "\<forall>p' r'. url = p' @ r' \<and> prefix order_marker r' \<longrightarrow> length pre \<le> length p'"
    using least_split [of url "prefix order_marker"] by blast
  obtain tail where tail: "r = order_marker @ tail" using pre(2) by (auto simp: prefix_def)
  have np: "\<not> sublist order_marker pre"
  proof
    assume "sublist order_marker pre"
    then obtain a b where "pre = a @ order_marker @ b" by (auto simp: sublist_def)
    then have "url = a @ (order_marker @ b @ r)" "length a < length pre"
      using pre(1) marker_nonempty(1) by simp_all
    then show False using pre(3) by (metis prefixI not_less)
  qed
  let ?stop = "\<lambda>r. r = [] \<or> hd r = 38 \<or> prefix order_marker r"
  have "\<exists>p r. tail = p @ r \<and> ?stop r" by (intro exI [of _ tail] exI [of _ "[]"]) simp
  then obtain seg rest where seg: "tail = seg @ rest" "?stop rest"
      "\<forall>p' r'. tail = p' @ r' \<and> ?stop r' \<longrightarrow> length seg \<le> length p'"
    using least_split [of tail ?stop] by blast
  have na: "38 \<notin> set seg"
  proof
    assume "38 \<in> set seg"
    then obtain a b where "seg = a @ 38 # b" by (meson split_list)
    then have "tail = a @ (38 # b @ rest)" "length a < length seg" using seg(1) by simp_all
    moreover have "?stop (38 # b @ rest)" by simp
    ultimately show False using seg(3) by (metis not_less)
  qed
  have ns: "\<not> sublist order_marker seg"
  proof
    assume "sublist order_marker seg"
    then obtain a b where "seg = a @ order_marker @ b" by (auto simp: sublist_def)
    then have "tail = a @ (order_marker @ b @ rest)" "length a < length seg"
      using seg(1) marker_nonempty(1) by simp_all
    moreover have "?stop (order_marker @ b @ rest)" by simp
    ultimately show False using seg(3) by (metis not_less)
  qed
  show ?thesis using pre(1) tail seg(1,2) np na ns by auto
qed

text \<open>
  Claim C9, as the code has it. FreelanceSpace: when the URL has no \<^verbatim>\<open>order?id=\<close>, the
  identity is the decimal rendering of \<open>\<bar>hash (title + url)\<bar>\<close>, not reduced further; when
  it has, the identity is the text between the first \<^verbatim>\<open>order?id=\<close> and the next \<^verbatim>\<open>&\<close>, the
  next \<^verbatim>\<open>order?id=\<close> or the end, whichever comes first, numeric or not, unless that text is
  empty, which gives the hash again; every URL with the marker has this shape. FL.ru: when
  the link has no match of \<^verbatim>\<open>/projects/\<close>, digits, \<^verbatim>\<open>/\<close> at any position (whether or not it
  holds \<^verbatim>\<open>/projects/\<close>), the identity is \<^verbatim>\<open>fl_\<close> followed by \<open>\<bar>hash href\<bar> mod 1000000\<close>, a
  number from 0 to 999999 that depends on the link alone; when it has one, the identity
  is \<^verbatim>\<open>fl_\<close> followed by the digits of the leftmost match; in every case it is one or the
  other. Each identity is a function of the title, the URL and the hash function of the
  process, so the same listing gets the same identity whenever it is extracted in one
  process.
\<close>

theorem listing_identity:
  "(\<not> sublist order_marker url \<longrightarrow>
      fs_order_id hash title url = PStr (py_str (abs (hash (title @ url)))))
   \<and> (url = pre @ order_marker @ seg @ rest
        \<and> \<not> sublist order_marker pre
        \<and> 38 \<notin> set seg \<and> \<not> sublist order_marker seg
        \<and> (rest = [] \<or> hd rest = 38 \<or> prefix order_marker rest)
      \<longrightarrow> fs_order_id hash title url =
            (if seg = [] then PStr (py_str (abs (hash (title @ url)))) else PStr seg))
   \<and> (sublist order_marker url \<longrightarrow>
        (\<exists>pre seg rest. url = pre @ order_marker @ seg @ rest \<and> \<not> sublist order_marker pre
           \<and> 38 \<notin> set seg \<and> \<not> sublist order_marker seg
           \<and> (rest = [] \<or> hd rest = 38 \<or> prefix order_marker rest)))
   \<and> ((\<forall>i g. \<not> project_match (is_digit U) href i g) \<longrightarrow>
        fl_order_id U hash href = ascii ''fl_'' @ py_str (abs (hash href) mod 1000000))
   \<and> (project_match (is_digit U) href i g
        \<and> (\<forall>j < i. \<forall>g'. \<not> project_match (is_digit U) href j g') \<and> \<not> is_digit U 47
      \<longrightarrow> fl_order_id U hash href = ascii ''fl_'' @ g)
   \<and> ((\<exists>i g. project_match (is_digit U) href i g \<and> fl_order_id U hash href = ascii ''fl_'' @ g)
      \<or> ((\<forall>i g. \<not> project_match (is_digit U) href i g)
         \<and> fl_order_id U hash href = ascii ''fl_'' @ py_str (abs (hash href) mod 1000000)))
   \<and> 0 \<le> abs (hash href) mod 1000000 \<and> abs (hash href) mod 1000000 < 1000000"
proof -
  have 1: "\<not> sublist order_marker url \<longrightarrow>
      fs_order_id hash title url = PStr (py_str (abs (hash (title @ url))))"
    using fs_id_fallback [of url hash title] by blast
  have 2: "url = pre @ order_marker @ seg @ rest
        \<and> \<not> sublist order_marker pre
        \<and> 38 \<notin> set seg \<and> \<not> sublist order_marker seg
        \<and> (rest = [] \<or> hd rest = 38 \<or> prefix order_marker rest)
      \<longrightarrow> fs_order_id hash title url =
            (if seg = [] then PStr (py_str (abs (hash (title @ url)))) else PStr seg)"
    using fs_id_segment [of url pre seg rest hash title] by blast
  have 3: "sublist order_marker url \<longrightarrow>
        (\<exists>pre seg rest. url = pre @ order_marker @ seg @ rest \<and> \<not> sublist order_marker pre
           \<and> 38 \<notin> set seg \<and> \<not> sublist order_marker seg
           \<and> (rest = [] \<or> hd rest = 38 \<or> prefix order_marker rest))"
    using fs_url_shape [of url] by blast
  have 4: "(\<forall>i g. \<not> project_match (is_digit U) href i g) \<longrightarrow>
        fl_order_id U hash href = ascii ''fl_'' @ py_str (abs (hash href) mod 1000000)"
    using fl_id_fallback [of U href hash] by blast
  have 5: "project_match (is_digit U) href i g
        \<and> (\<forall>j < i. \<forall>g'. \<not> project_match (is_digit U) href j g') \<and> \<not> is_digit U 47
      \<longrightarrow> fl_order_id U hash href = ascii ''fl_'' @ g"
    using fl_id_segment [of U href i g hash] by blast
  note 6 = fl_id_is_match_or_hash [of U href hash]
  have 7: "0 \<le> abs (hash href) mod 1000000" "abs (hash href) mod 1000000 < 1000000" by simp_all
  show ?thesis by (intro conjI) (rule 1 2 3 4 5 6 7)+
qed
lemma sample_url_split:
  "ascii ''https://freelancespace.ru/order?id=123&ref=1''
     = ascii ''https://freelancespace.ru/'' @ order_marker @ ascii ''123'' @ ascii ''&ref=1''"
  "ascii ''https://freelancespace.ru/order?id=abc''
     = ascii ''https://freelancespace.ru/'' @ order_marker @ ascii ''abc'' @ []"
  "ascii ''https://freelancespace.ru/order?id=1order?id=2&x=3''
     = ascii ''https://freelancespace.ru/'' @ order_marker @ ascii ''1'' @ ascii ''order?id=2&x=3''"
  by (simp_all add: ascii_def order_marker_def)

lemma sample_url_first:
  "\<not> sublist order_marker (ascii ''https://freelancespace.ru/'')"
  by (simp add: ascii_def order_marker_def sublist_Cons_right)

lemma sample_hash_value:
  "py_str (abs (sample_hash (ascii ''Job'' @ ascii ''https://freelancespace.ru/orders/123''))) = ascii ''1369''"
  by (simp add: sample_hash_def ascii_def py_str_def decimal_str.simps [of 1369]
      decimal_str.simps [of 136] decimal_str.simps [of 13] decimal_str.simps [of "Suc 0"])

lemma no_match_sample:
  "\<not> project_match (is_digit basic_runtime) (ascii ''/projects/new-task.html'') i g"
proof -
  have "search_project_id (is_digit basic_runtime) (ascii ''/projects/new-task.html'') = None"
    by (simp add: ascii_def is_digit_def basic_runtime_def Let_def)
  then show ?thesis using search_complete by blast
qed

lemma no_match_without_slash:
  "\<not> project_match (is_digit basic_runtime) (ascii ''/projects/123'') i g"
proof -
  have "search_project_id (is_digit basic_runtime) (ascii ''/projects/123'') = None"
    by (simp add: ascii_def is_digit_def basic_runtime_def Let_def)
  then show ?thesis using search_complete by blast
qed

lemma second_match_sample:
  "project_match (is_digit basic_runtime) (ascii ''/projects/abc/projects/12/'') 13 (ascii ''12'')"
  by (simp add: project_match_def projects_marker_def ascii_def is_digit_def basic_runtime_def)

lemma no_earlier_match_sample:
  assumes "j < 13"
  shows "\<not> project_match (is_digit basic_runtime) (ascii ''/projects/abc/projects/12/'') j g"
proof -
  have "j = 0 \<or> j = 1 \<or> j = 2 \<or> j = 3 \<or> j = 4 \<or> j = 5 \<or> j = 6 \<or> j = 7
      \<or> j = 8 \<or> j = 9 \<or> j = 10 \<or> j = 11 \<or> j = 12"
    using assms by presburger
  then consider "j = 0" | "j = 1" | "j = 2" | "j = 3" | "j = 4" | "j = 5" | "j = 6" | "j = 7"
    | "j = 8" | "j = 9" | "j = 10" | "j = 11" | "j = 12"
    by blast
  then show ?thesis
  proof cases
    case 1
    show ?thesis
    proof
      assume "project_match (is_digit basic_runtime) (ascii ''/projects/abc/projects/12/'') j g"
      then have g: "g \<noteq> []" "\<forall>c \<in> set g. is_digit basic_runtime c"
          "prefix (g @ [47]) (ascii ''abc/projects/12/'')"
        using 1 by (simp_all add: project_match_def projects_marker_def ascii_def)
      then obtain c cs where "g = c # cs" by (cases g) auto
      then have "c = 97" "is_digit basic_runtime c" using g(2,3) by (simp_all add: ascii_def)
      then show False by (simp add: is_digit_def basic_runtime_def)
    qed
  qed (simp_all add: project_match_def projects_marker_def ascii_def)
qed

theorem listing_identity_witness:
  "fs_order_id sample_hash (ascii ''Job'') (ascii ''https://freelancespace.ru/order?id=123&ref=1'')
     = PStr (ascii ''123'')
   \<and> fs_order_id sample_hash (ascii ''Job'') (ascii ''https://freelancespace.ru/order?id=1order?id=2&x=3'')
     = PStr (ascii ''1'')
   \<and> \<not> sublist order_marker (ascii ''https://freelancespace.ru/orders/123'')
   \<and> fs_order_id sample_hash (ascii ''Job'') (ascii ''https://freelancespace.ru/orders/123'')
     = PStr (ascii ''1369'')
   \<and> project_match (is_digit basic_runtime) (ascii ''/projects/5432101/sozdat-sayt.html'') 0 (ascii ''5432101'')
   \<and> fl_order_id basic_runtime sample_hash (ascii ''/projects/5432101/sozdat-sayt.html'')
     = ascii ''fl_5432101''
   \<and> project_match (is_digit basic_runtime) (ascii ''/projects/abc/projects/12/'') 13 (ascii ''12'')
   \<and> fl_order_id basic_runtime sample_hash (ascii ''/projects/abc/projects/12/'') = ascii ''fl_12''
   \<and> fl_order_id basic_runtime sample_hash (ascii ''/projects/new-task.html'')
     = ascii ''fl_'' @ py_str (abs (sample_hash (ascii ''/projects/new-task.html'')) mod 1000000)
   \<and> fl_order_id basic_runtime sample_hash (ascii ''/projects/123'')
     = ascii ''fl_'' @ py_str (abs (sample_hash (ascii ''/projects/123'')) mod 1000000)"
proof -
  have h1: "ascii ''https://freelancespace.ru/order?id=123&ref=1''
        = ascii ''https://freelancespace.ru/'' @ order_marker @ ascii ''123'' @ ascii ''&ref=1''
      \<and> \<not> sublist order_marker (ascii ''https://freelancespace.ru/'')
      \<and> 38 \<notin> set (ascii ''123'') \<and> \<not> sublist order_marker (ascii ''123'')
      \<and> (ascii ''&ref=1'' = [] \<or> hd (ascii ''&ref=1'') = 38 \<or> prefix order_marker (ascii ''&ref=1''))"
    using sample_url_split(1) sample_url_first
    by (simp add: ascii_def order_marker_def sublist_Cons_right)
  have h1': "ascii ''https://freelancespace.ru/order?id=1order?id=2&x=3''
        = ascii ''https://freelancespace.ru/'' @ order_marker @ ascii ''1'' @ ascii ''order?id=2&x=3''
      \<and> \<not> sublist order_marker (ascii ''https://freelancespace.ru/'')
      \<and> 38 \<notin> set (ascii ''1'') \<and> \<not> sublist order_marker (ascii ''1'')
      \<and> (ascii ''order?id=2&x=3'' = [] \<or> hd (ascii ''order?id=2&x=3'') = 38
          \<or> prefix order_marker (ascii ''order?id=2&x=3''))"
    using sample_url_split(3) sample_url_first
    by (simp add: ascii_def order_marker_def sublist_Cons_right)
  have h2: "\<not> sublist order_marker (ascii ''https://freelancespace.ru/orders/123'')"
    by (simp add: ascii_def order_marker_def sublist_Cons_right)
  have m3: "project_match (is_digit basic_runtime) (ascii ''/projects/5432101/sozdat-sayt.html'') 0
      (ascii ''5432101'')"
    by (simp add: project_match_def projects_marker_def ascii_def is_digit_def basic_runtime_def)
  have d47: "\<not> is_digit basic_runtime 47" by (simp add: is_digit_def basic_runtime_def)
  have h3: "project_match (is_digit basic_runtime) (ascii ''/projects/5432101/sozdat-sayt.html'') 0
        (ascii ''5432101'')
      \<and> (\<forall>j < 0. \<forall>g'. \<not> project_match (is_digit basic_runtime)
            (ascii ''/projects/5432101/sozdat-sayt.html'') j g')
      \<and> \<not> is_digit basic_runtime 47"
    using m3 d47 by simp
  have h4: "project_match (is_digit basic_runtime) (ascii ''/projects/abc/projects/12/'') 13 (ascii ''12'')
      \<and> (\<forall>j < 13. \<forall>g'. \<not> project_match (is_digit basic_runtime)
            (ascii ''/projects/abc/projects/12/'') j g')
      \<and> \<not> is_digit basic_runtime 47"
    using second_match_sample no_earlier_match_sample d47 by blast
  have h5: "\<forall>i g. \<not> project_match (is_digit basic_runtime) (ascii ''/projects/new-task.html'') i g"
    using no_match_sample by blast
  have h6: "\<forall>i g. \<not> project_match (is_digit basic_runtime) (ascii ''/projects/123'') i g"
    using no_match_without_slash by blast
  note T1 = listing_identity [where url = "ascii ''https://freelancespace.ru/order?id=123&ref=1''"
      and hash = sample_hash and title = "ascii ''Job''"
      and pre = "ascii ''https://freelancespace.ru/''" and seg = "ascii ''123''"
      and rest = "ascii ''&ref=1''", THEN conjunct2, THEN conjunct1, THEN mp, OF h1]
  note T1' = listing_identity [where url = "ascii ''https://freelancespace.ru/order?id=1order?id=2&x=3''"
      and hash = sample_hash and title = "ascii ''Job''"
      and pre = "ascii ''https://freelancespace.ru/''" and seg = "ascii ''1''"
      and rest = "ascii ''order?id=2&x=3''", THEN conjunct2, THEN conjunct1, THEN mp, OF h1']
  note T2 = listing_identity [where url = "ascii ''https://freelancespace.ru/orders/123''"
      and hash = sample_hash and title = "ascii ''Job''", THEN conjunct1, THEN mp, OF h2]
  note T3 = listing_identity [where href = "ascii ''/projects/5432101/sozdat-sayt.html''"
      and U = basic_runtime and hash = sample_hash and i = 0 and g = "ascii ''5432101''",
      THEN conjunct2, THEN conjunct2, THEN conjunct2, THEN conjunct2, THEN conjunct1, THEN mp, OF h3]
  note T4 = listing_identity [where href = "ascii ''/projects/abc/projects/12/''"
      and U = basic_runtime and hash = sample_hash and i = 13 and g = "ascii ''12''",
      THEN conjunct2, THEN conjunct2, THEN conjunct2, THEN conjunct2, THEN conjunct1, THEN mp, OF h4]
  note T5 = listing_identity [where href = "ascii ''/projects/new-task.html''"
      and U = basic_runtime and hash = sample_hash,
      THEN conjunct2, THEN conjunct2, THEN conjunct2, THEN conjunct1, THEN mp, OF h5]
  note T6 = listing_identity [where href = "ascii ''/projects/123''"
      and U = basic_runtime and hash = sample_hash,
      THEN conjunct2, THEN conjunct2, THEN conjunct2, THEN conjunct1, THEN mp, OF h6]
  have a: "ascii ''123'' \<noteq> []" "ascii ''1'' \<noteq> []" by (simp_all add: ascii_def)
  have b: "ascii ''fl_'' @ ascii ''5432101'' = ascii ''fl_5432101''"
    "ascii ''fl_'' @ ascii ''12'' = ascii ''fl_12''" by (simp_all add: ascii_def)
  have c1: "fs_order_id sample_hash (ascii ''Job'') (ascii ''https://freelancespace.ru/order?id=123&ref=1'')
     = PStr (ascii ''123'')" using T1 a by simp
  have c2: "fs_order_id sample_hash (ascii ''Job'')
       (ascii ''https://freelancespace.ru/order?id=1order?id=2&x=3'') = PStr (ascii ''1'')"
    using T1' a by simp
  have c3: "fs_order_id sample_hash (ascii ''Job'') (ascii ''https://freelancespace.ru/orders/123'')
     = PStr (ascii ''1369'')" using T2 sample_hash_value by simp
  have c4: "fl_order_id basic_runtime sample_hash (ascii ''/projects/5432101/sozdat-sayt.html'')
     = ascii ''fl_5432101''" using T3 b by simp
  have c5: "fl_order_id basic_runtime sample_hash (ascii ''/projects/abc/projects/12/'') = ascii ''fl_12''"
    using T4 b by simp
  show ?thesis
    by (intro conjI) (rule c1 c2 h2 c3 m3 c4 second_match_sample c5 T5 T6)+
qed

text \<open>
  The identity need not be numeric, nor a hash, and a number in the path is not taken:
  the URL \<^verbatim>\<open>https://freelancespace.ru/order?id=abc\<close> gives the identity "abc", and
  \<^verbatim>\<open>https://freelancespace.ru/orders/123\<close> gives a hash (1369 under the sample hash), not
  123.
\<close>

theorem non_numeric_identity_counterexample:
  "fs_order_id sample_hash (ascii ''Job'') (ascii ''https://freelancespace.ru/order?id=abc'')
     = PStr (ascii ''abc'')
   \<and> \<not> list_all (\<lambda>c. 48 \<le> c \<and> c \<le> 57) (ascii ''abc'')
   \<and> ascii ''abc'' \<noteq> py_str (abs (sample_hash (ascii ''Job'' @ ascii ''https://freelancespace.ru/order?id=abc'')))
   \<and> fs_order_id sample_hash (ascii ''Job'') (ascii ''https://freelancespace.ru/orders/123'')
     = PStr (ascii ''1369'')"
proof -
  have 1: "fs_order_id sample_hash (ascii ''Job'') (ascii ''https://freelancespace.ru/order?id=abc'')
     = PStr (ascii ''abc'')"
    using fs_id_segment [OF sample_url_split(2) sample_url_first, of sample_hash "ascii ''Job''"]
    by (simp add: ascii_def order_marker_def sublist_Cons_right)
  have 2: "\<not> list_all (\<lambda>c. 48 \<le> c \<and> c \<le> 57) (ascii ''abc'')" by (simp add: ascii_def)
  have 3: "ascii ''abc'' \<noteq> py_str (abs (sample_hash (ascii ''Job'' @ ascii ''https://freelancespace.ru/order?id=abc'')))"
  proof
    assume e: "ascii ''abc'' = py_str (abs (sample_hash (ascii ''Job'' @ ascii ''https://freelancespace.ru/order?id=abc'')))"
    have "97 \<in> set (ascii ''abc'')" by (simp add: ascii_def)
    then have "97 \<in> set (decimal_str (nat (abs (sample_hash (ascii ''Job'' @ ascii ''https://freelancespace.ru/order?id=abc'')))))"
      unfolding e by (simp add: py_str_def)
    then show False using decimal_str_digits by fastforce
  qed
  have 4: "fs_order_id sample_hash (ascii ''Job'') (ascii ''https://freelancespace.ru/orders/123'')
     = PStr (ascii ''1369'')"
    using fs_id_fallback [of "ascii ''https://freelancespace.ru/orders/123''" sample_hash "ascii ''Job''"]
      sample_hash_value
    by (simp add: ascii_def order_marker_def sublist_Cons_right)
  show ?thesis using 1 2 3 4 by simp
qed

section \<open>The block locator and duplicates\<close>

text \<open>Methods 2 and 3 never add a node that is already listed.\<close>

lemma method2_blocks_keeps_distinct:
  "distinct order_blocks \<Longrightarrow> distinct (method2_blocks U soup blocks order_blocks)"
proof (induction blocks arbitrary: order_blocks)
  case Nil
  then show ?case by simp
next
  case (Cons b blocks)
  have "not_in_blocks soup b order_blocks \<Longrightarrow> b \<notin> set order_blocks"
    by (auto simp: not_in_blocks_def)
  then show ?case using Cons by auto
qed

lemma method2_keeps_distinct:
  "distinct order_blocks \<Longrightarrow> distinct (method2 U soup sels order_blocks)"
  by (induction sels arbitrary: order_blocks) (auto simp: method2_blocks_keeps_distinct)

lemma ancestor_walk_ok: "ancestor_walk ok fuel parent = Some p \<Longrightarrow> ok p"
  by (induction ok fuel parent rule: ancestor_walk.induct) (auto split: if_splits)

lemma method3_keeps_distinct:
  "distinct order_blocks \<Longrightarrow> distinct (method3 U soup links order_blocks)"
proof (induction links arbitrary: order_blocks)
  case Nil
  then show ?case by simp
next
  case (Cons l links)
  show ?case
  proof (cases "ancestor_walk (\<lambda>p. block_at U soup p \<and> not_in_blocks soup p order_blocks) 10
             (find_parent l)")
    case None
    then show ?thesis using Cons by simp
  next
    case (Some p)
    then have "not_in_blocks soup p order_blocks" using ancestor_walk_ok by fastforce
    then have "p \<notin> set order_blocks" by (auto simp: not_in_blocks_def)
    then show ?thesis using Some Cons by simp
  qed
qed


lemma ancestor_walk_numeral:
  "ancestor_walk ok (numeral n) (Some p) =
     (if ok p then Some p else ancestor_walk ok (pred_numeral n) (find_parent p))"
  "ancestor_walk ok (numeral n) None = None"
  by (simp_all add: numeral_eq_Suc)

lemmas word_defs = action_words_def price_words_def time_words_def order_indicator_words_def

lemma block_is_block: "is_order_block basic_runtime block_two_cues"
  by (simp add: is_order_block_def block_two_cues_def otkliknutsya_def ascii_def word_defs
      strip_def basic_runtime_def sublist_Cons_right Let_def)

lemma button_is_no_block:
  "\<not> is_order_block basic_runtime (Tag ''button'' cls None [Text otkliknutsya])"
  by (simp add: is_order_block_def otkliknutsya_def strip_def basic_runtime_def Let_def)

lemma sample_buttons: "buttons_of doc_two_cues = [[0, 2, 0], [0, 3, 0]]"
  by (simp add: buttons_of_def doc_two_cues_def block_two_cues_def otkliknutsya_def ascii_def
      sublist_Cons_right)

lemma sample_subtrees:
  "subtree doc_two_cues [0] = Some block_two_cues"
  "subtree doc_two_cues [0, 2] = Some (Tag ''button'' [''hidden'', ''sm:inline''] None [Text otkliknutsya])"
  "subtree doc_two_cues [0, 3] = Some (Tag ''button'' [''sm:hidden''] None [Text otkliknutsya])"
  by (simp_all add: doc_two_cues_def block_two_cues_def)

lemma sample_method1:
  "method1 basic_runtime doc_two_cues [[0, 2, 0], [0, 3, 0]] [] = [[0], [0]]"
  by (simp add: ancestor_walk_numeral find_parent_def block_at_def sample_subtrees
      block_is_block button_is_no_block)

lemma sample_select:
  "select doc_two_cues (DivWithClasses [''border'', ''border-gray-300'']) = [[0]]"
  "select doc_two_cues (DivClassContains ''border'') = [[0]]"
  "select doc_two_cues (DivClassContains ''shadow'') = []"
  "select doc_two_cues (DivClassContains ''rounded'') = []"
  by (simp_all add: select_def doc_two_cues_def block_two_cues_def sublist_Cons_right)

lemma sample_method2:
  "method2 basic_runtime doc_two_cues css_selectors [[0], [0]] = [[0], [0]]"
  by (simp add: css_selectors_def sample_select not_in_blocks_def)

lemma sample_links: "order_links_of doc_two_cues = []"
  by (simp add: order_links_of_def doc_two_cues_def block_two_cues_def)

text \<open>
  Claim C7 at the sample document. Method 1 appends the block an action cue leads to
  without looking whether it is already listed. The bordered block of the sample holds
  the cue twice, so it is reached from two text leaves and listed twice; the selectors of
  method 2 find the same block again and, as it is listed, do not add it a third time.
\<close>

theorem block_found_by_two_cues_listed_twice:
  "buttons_of doc_two_cues = [[0, 2, 0], [0, 3, 0]]
   \<and> locate_blocks basic_runtime doc_two_cues = [[0], [0]]
   \<and> \<not> distinct (locate_blocks basic_runtime doc_two_cues)"
  unfolding locate_blocks_def sample_buttons sample_links sample_method1 sample_method2
  by simp

end
